theory Spec2Isabelle
  imports Main "HOL-Library.AList"
begin

section \<open>Data model (types.ts and the persons table of database.ts)\<close>

type_synonym pid = string

datatype Gender = Male | Female | Other

datatype RelationshipType = Child | Spouse | Sibling | Parent

text \<open>
  The descriptive attributes of a person: what \<^verbatim>\<open>addPerson\<close> receives as
  \<^verbatim>\<open>personData\<close> (a Person without id, children and spouse).
\<close>

record personData =
  name :: string
  gender :: Gender
  birthDate :: string
  deathDate :: "string option"
  photoUrl :: "string option"
  bio :: "string option"
  location :: "string option"

text \<open>
  A Person without children and spouse: the flattened spouse snapshot of a tree node and
  the spouse payload of \<^verbatim>\<open>updatePerson\<close>.
\<close>

record spouseData = personData +
  idP :: pid

text \<open>A row of the persons table: the two nullable link columns are added.\<close>

record person = spouseData +
  parentId :: "pid option"
  spouseId :: "pid option"

text \<open>
  The table in row order. The column \<^verbatim>\<open>id\<close> is the primary key, so the tables the
  database can hold have pairwise different ids (\<open>distinct (ids ps)\<close>).
\<close>

type_synonym store = "person list"

definition ids :: "store \<Rightarrow> pid list" where
  "ids ps = map idP ps"

text \<open>
  JavaScript truthiness of a nullable string column: \<^verbatim>\<open>null\<close> and the empty string
  are falsy.
\<close>

fun truthy :: "string option \<Rightarrow> bool" where
  "truthy None = False"
| "truthy (Some s) = (s \<noteq> [])"

definition SPOUSE :: string where
  "SPOUSE = ''SPOUSE''"

text \<open>The test \<^verbatim>\<open>p.parentId && p.parentId !== 'SPOUSE'\<close>.\<close>

definition hasParent :: "pid option \<Rightarrow> bool" where
  "hasParent x = (truthy x \<and> x \<noteq> Some SPOUSE)"

datatype error =
    ConstraintError
  | PersonNotFound
  | NoPersonsFound
  | PersonWithIdNotFound pid
  | RootPersonNotFound
  | TypeError

section \<open>The SQL statements used by the mutation engine\<close>

text \<open>\<^verbatim>\<open>SELECT * FROM persons WHERE id = ?\<close> through \<^verbatim>\<open>db.get\<close>: the first matching row.\<close>

definition getPerson :: "pid \<Rightarrow> store \<Rightarrow> person option" where
  "getPerson i ps = find (\<lambda>p. idP p = i) ps"

text \<open>
  \<^verbatim>\<open>INSERT INTO persons (id, name, ...) VALUES (...)\<close>: both link columns are NULL; the
  primary key rejects an id that is already there.
\<close>

definition insertPerson :: "pid \<Rightarrow> personData \<Rightarrow> store \<Rightarrow> error + store" where
  "insertPerson i d ps =
     (if i \<in> set (ids ps) then Inl ConstraintError
      else Inr (ps @ [\<lparr>name = name d, gender = gender d, birthDate = birthDate d,
                       deathDate = deathDate d, photoUrl = photoUrl d, bio = bio d,
                       location = location d, idP = i, parentId = None, spouseId = None\<rparr>]))"

text \<open>\<^verbatim>\<open>UPDATE persons SET parentId = ? WHERE id = ?\<close>\<close>

definition setParentId :: "pid option \<Rightarrow> pid \<Rightarrow> store \<Rightarrow> store" where
  "setParentId v i ps = map (\<lambda>p. if idP p = i then p\<lparr>parentId := v\<rparr> else p) ps"

text \<open>\<^verbatim>\<open>UPDATE persons SET spouseId = ? WHERE id = ?\<close>\<close>

definition setSpouseId :: "pid option \<Rightarrow> pid \<Rightarrow> store \<Rightarrow> store" where
  "setSpouseId v i ps = map (\<lambda>p. if idP p = i then p\<lparr>spouseId := v\<rparr> else p) ps"

text \<open>\<^verbatim>\<open>UPDATE persons SET name = ?, gender = ?, ... , location = ? WHERE id = ?\<close>\<close>

definition setDetails :: "'a personData_scheme \<Rightarrow> pid \<Rightarrow> store \<Rightarrow> store" where
  "setDetails d i ps =
     map (\<lambda>p. if idP p = i
               then p\<lparr>name := name d, gender := gender d, birthDate := birthDate d,
                      deathDate := deathDate d, photoUrl := photoUrl d, bio := bio d,
                      location := location d\<rparr>
               else p) ps"

text \<open>\<^verbatim>\<open>DELETE FROM persons WHERE id = ?\<close>\<close>

definition deleteRow :: "pid \<Rightarrow> store \<Rightarrow> store" where
  "deleteRow i ps = filter (\<lambda>p. idP p \<noteq> i) ps"

text \<open>\<^verbatim>\<open>UPDATE persons SET parentId = NULL WHERE parentId = ?\<close>\<close>

definition orphanChildren :: "pid \<Rightarrow> store \<Rightarrow> store" where
  "orphanChildren i ps = map (\<lambda>p. if parentId p = Some i then p\<lparr>parentId := None\<rparr> else p) ps"

section \<open>The mutation engine\<close>

text \<open>
  \<^verbatim>\<open>addPerson\<close>. The new id is \<^verbatim>\<open>`person-${Date.now()}`\<close>; the clock reading, printed
  in decimal, is the parameter \<open>stamp\<close>. The only statement that can fail is the INSERT,
  before anything is written.
\<close>

definition newPersonId :: "string \<Rightarrow> pid" where
  "newPersonId stamp = ''person-'' @ stamp"

definition addPerson ::
  "string \<Rightarrow> personData \<Rightarrow> RelationshipType \<Rightarrow> pid \<Rightarrow> store \<Rightarrow> error + (person option \<times> store)"
where
  "addPerson stamp d relationship relativeToId ps =
     (let new = newPersonId stamp in
      case insertPerson new d ps of
        Inl e \<Rightarrow> Inl e
      | Inr ps1 \<Rightarrow>
          (let ps2 =
             (case relationship of
                Spouse \<Rightarrow>
                  setSpouseId (Some relativeToId) new
                    (setSpouseId (Some new) relativeToId
                      (setParentId (Some SPOUSE) new ps1))
              | Child \<Rightarrow> setParentId (Some relativeToId) new ps1
              | Sibling \<Rightarrow>
                  (case getPerson relativeToId ps1 of
                     None \<Rightarrow> ps1
                   | Some relative \<Rightarrow>
                       if truthy (parentId relative)
                       then setParentId (parentId relative) new ps1
                       else ps1)
              | Parent \<Rightarrow> setParentId (Some new) relativeToId ps1)
           in Inr (getPerson new ps2, ps2)))"

text \<open>
  \<^verbatim>\<open>updatePerson\<close>: one UPDATE for the person, one for the spouse payload when there
  is one, then the row is read back. No branch throws.
\<close>

definition updatePerson ::
  "pid \<Rightarrow> personData \<Rightarrow> spouseData option \<Rightarrow> store \<Rightarrow> error + (person option \<times> store)"
where
  "updatePerson personId d spouse_payload ps =
     (let ps1 = setDetails d personId ps;
          ps2 = (case spouse_payload of
                   None \<Rightarrow> ps1
                 | Some sp \<Rightarrow> setDetails sp (idP sp) ps1)
      in Inr (getPerson personId ps2, ps2))"

text \<open>
  \<^verbatim>\<open>deletePerson\<close>: returns the deleted person's name (the message is constant).
\<close>

definition deletePerson :: "pid \<Rightarrow> store \<Rightarrow> error + (string \<times> store)" where
  "deletePerson personId ps =
     (case getPerson personId ps of
        None \<Rightarrow> Inl PersonNotFound
      | Some p \<Rightarrow>
          (let ps1 = (case spouseId p of
                        None \<Rightarrow> ps
                      | Some s \<Rightarrow> if truthy (Some s) then setSpouseId None s ps else ps);
               ps2 = deleteRow personId ps1;
               ps3 = orphanChildren personId ps2
           in Inr (name p, ps3)))"

section \<open>The path finder\<close>

datatype hop = hop_start | hop_parent | hop_child | hop_spouse

record PathSegment =
  personId :: pid
  personName :: string
  relationship :: hop

text \<open>
  The adjacency map \<^verbatim>\<open>adj\<close> (a \<^verbatim>\<open>Map<string, string[]>\<close>) as an association list in
  insertion order.
\<close>

type_synonym adjacency = "(pid \<times> pid list) list"

text \<open>\<^verbatim>\<open>if (!adj.has(k)) adj.set(k, [])\<close>\<close>

definition ensure :: "pid \<Rightarrow> adjacency \<Rightarrow> adjacency" where
  "ensure k adj = (if map_of adj k = None then adj @ [(k, [])] else adj)"

text \<open>
  \<^verbatim>\<open>adj.get(k)!.push(v)\<close>. Every such statement of the source comes after
  \<^verbatim>\<open>ensure k\<close>, so the key is there.
\<close>

definition push :: "pid \<Rightarrow> pid \<Rightarrow> adjacency \<Rightarrow> adjacency" where
  "push k v adj = AList.map_entry k (\<lambda>l. l @ [v]) adj"

text \<open>The body of the loop that builds the adjacency lists, for one row.\<close>

definition addEdges :: "person \<Rightarrow> adjacency \<Rightarrow> adjacency" where
  "addEdges p adj =
     (let adj1 = ensure (idP p) adj;
          adj2 = (case parentId p of
                    None \<Rightarrow> adj1
                  | Some par \<Rightarrow>
                      if hasParent (Some par)
                      then push par (idP p) (push (idP p) par (ensure par adj1))
                      else adj1)
      in (case spouseId p of
            None \<Rightarrow> adj2
          | Some sp \<Rightarrow>
              if truthy (Some sp)
              then push sp (idP p) (push (idP p) sp (ensure sp adj2))
              else adj2))"

definition buildAdjacency :: "store \<Rightarrow> adjacency" where
  "buildAdjacency ps = fold addEdges ps []"

text \<open>\<^verbatim>\<open>adj.get(personId) || []\<close>\<close>

definition neighbors :: "adjacency \<Rightarrow> pid \<Rightarrow> pid list" where
  "neighbors adj i = (case map_of adj i of None \<Rightarrow> [] | Some l \<Rightarrow> l)"

text \<open>\<^verbatim>\<open>new Map(persons.map(p => [p.id, p]))\<close>: a later row replaces an earlier one.\<close>

definition personMap :: "store \<Rightarrow> pid \<Rightarrow> person option" where
  "personMap ps = map_of (rev (map (\<lambda>p. (idP p, p)) ps))"

text \<open>The body of the loop over the neighbours of the node at the end of \<open>path\<close>.\<close>

fun visit :: "pid list \<Rightarrow> pid \<Rightarrow> pid set \<times> pid list list \<Rightarrow> pid set \<times> pid list list" where
  "visit path neighborId (visited, queue) =
     (if neighborId \<in> visited then (visited, queue)
      else (insert neighborId visited, queue @ [path @ [neighborId]]))"

text \<open>
  \<^verbatim>\<open>path[path.length - 1]\<close>: \<^verbatim>\<open>undefined\<close> for an empty path (no path of the queue is
  ever empty).
\<close>

definition lastId :: "pid list \<Rightarrow> pid option" where
  "lastId path = (if path = [] then None else Some (last path))"

text \<open>
  The loop ends: a step takes a path off the queue, and it puts back one path for every
  id of the neighbour lists that it newly visits.
\<close>

definition nodes :: "adjacency \<Rightarrow> pid set" where
  "nodes adj = set (concat (map snd adj))"

lemma visit_measure:
  "set ns \<subseteq> U \<Longrightarrow> finite U \<Longrightarrow> fold (visit path) ns (vis, q) = (vis', q') \<Longrightarrow>
     length q' + 2 * card (U - vis') \<le> length q + 2 * card (U - vis)"
proof (induction ns arbitrary: vis q)
  case Nil
  then show ?case by simp
next
  case (Cons n ns)
  show ?case
  proof (cases "n \<in> vis")
    case True
    with Cons show ?thesis by simp
  next
    case False
    with Cons.prems have f: "fold (visit path) ns (insert n vis, q @ [path @ [n]]) = (vis', q')"
      by simp
    from Cons.prems have "set ns \<subseteq> U" by simp
    from Cons.IH [OF this Cons.prems(2) f]
    have le: "length q' + 2 * card (U - vis') \<le> Suc (length q) + 2 * card (U - insert n vis)"
      by simp
    from False Cons.prems have "n \<in> U - vis" by simp
    with Cons.prems(2) have "card (U - insert n vis) < card (U - vis)"
      by (metis Diff_insert card_Diff1_less finite_Diff)
    with le show ?thesis by linarith
  qed
qed

lemma neighbors_nodes: "set (neighbors adj i) \<subseteq> nodes adj"
proof (cases "map_of adj i")
  case None
  then show ?thesis by (simp add: neighbors_def)
next
  case (Some l)
  then have "(i, l) \<in> set adj" by (rule map_of_SomeD)
  then have "set l \<subseteq> nodes adj" by (force simp: nodes_def)
  with Some show ?thesis by (simp add: neighbors_def)
qed

text \<open>The \<^verbatim>\<open>while (queue.length > 0)\<close> loop.\<close>

function bfs :: "adjacency \<Rightarrow> pid \<Rightarrow> pid list list \<Rightarrow> pid set \<Rightarrow> pid list option" where
  "bfs adj endId [] visited = None"
| "bfs adj endId (path # queue) visited =
     (case lastId path of
        None \<Rightarrow> bfs adj endId queue visited
      | Some pId \<Rightarrow>
          if pId = endId then Some path
          else (case fold (visit path) (neighbors adj pId) (visited, queue) of
                  (visited', queue') \<Rightarrow> bfs adj endId queue' visited'))"
  by pat_completeness auto
termination
proof (relation "measure (\<lambda>(adj, endId, queue, visited).
                   length queue + 2 * card (nodes adj - visited))", goal_cases)
  case 1
  show ?case by simp
next
  case (2 adj endId path queue visited)
  then show ?case by simp
next
  case (3 adj endId path queue visited pId visited' queue')
  from this(3) have f: "fold (visit path) (neighbors adj pId) (visited, queue) = (visited', queue')"
    by simp
  have "finite (nodes adj)" by (simp add: nodes_def)
  from visit_measure [OF neighbors_nodes this f] show ?case
    by simp
qed

text \<open>How the hop from \<open>prevPerson\<close> to \<open>currentId\<close> is tagged.\<close>

definition hopType :: "person \<Rightarrow> pid \<Rightarrow> hop" where
  "hopType prevPerson currentId =
     (if parentId prevPerson = Some currentId then hop_parent
      else if spouseId prevPerson = Some currentId then hop_spouse
      else hop_child)"

text \<open>
  The loop that builds \<^verbatim>\<open>detailedPath\<close>; \<open>prev\<close> is \<^verbatim>\<open>path[i - 1]\<close>, absent for
  \<open>i = 0\<close>. Reading a field of a person the map does not have is a TypeError.
\<close>

fun detailedPath :: "(pid \<Rightarrow> person option) \<Rightarrow> pid option \<Rightarrow> pid list \<Rightarrow> error + PathSegment list" where
  "detailedPath pm prev [] = Inr []"
| "detailedPath pm prev (currentId # rest) =
     (case pm currentId of
        None \<Rightarrow> Inl TypeError
      | Some currentPerson \<Rightarrow>
          (case (case prev of
                   None \<Rightarrow> Inr hop_start
                 | Some prevId \<Rightarrow>
                     (case pm prevId of
                        None \<Rightarrow> Inl TypeError
                      | Some prevPerson \<Rightarrow> Inr (hopType prevPerson currentId))) of
             Inl e \<Rightarrow> Inl e
           | Inr rel \<Rightarrow>
               (case detailedPath pm (Some currentId) rest of
                  Inl e \<Rightarrow> Inl e
                | Inr segs \<Rightarrow>
                    Inr (\<lparr>personId = currentId, personName = name currentPerson,
                          relationship = rel\<rparr> # segs))))"

text \<open>\<^verbatim>\<open>findRelationshipPath\<close>; \<open>Inr None\<close> is the result \<^verbatim>\<open>null\<close>.\<close>

definition findRelationshipPath :: "pid \<Rightarrow> pid \<Rightarrow> store \<Rightarrow> error + PathSegment list option" where
  "findRelationshipPath startId endId ps =
     (case bfs (buildAdjacency ps) endId [[startId]] {startId} of
        None \<Rightarrow> Inr None
      | Some path \<Rightarrow>
          (case detailedPath (personMap ps) None path of
             Inl e \<Rightarrow> Inl e
           | Inr segs \<Rightarrow> Inr (Some segs)))"

section \<open>The tree reconstructor\<close>

text \<open>
  A tree node: the row (\<^verbatim>\<open>{ ...p, children: [] }\<close>), the children and the spouse
  snapshot. The source holds the nodes in \<^verbatim>\<open>personMap\<close> and links them by reference;
  every node that is ever referenced is a value of that map, so a reference is modelled
  by the node's key, and the map by an association list in insertion order.
\<close>

record node =
  row :: person
  children :: "pid list"
  spouse :: "spouseData option"

type_synonym nodeMap = "(pid \<times> node) list"

text \<open>The value \<^verbatim>\<open>getFamilyTree\<close> returns: the root node, and the nodes its references mean.\<close>

record familyTree =
  root :: node
  treeNodes :: nodeMap

text \<open>First pass: create the nodes and collect the ids of all children.\<close>

fun createNode :: "person \<Rightarrow> nodeMap \<times> pid set \<Rightarrow> nodeMap \<times> pid set" where
  "createNode p (pm, childIds) =
     (AList.update (idP p) \<lparr>row = p, children = [], spouse = None\<rparr> pm,
      if hasParent (parentId p) then insert (idP p) childIds else childIds)"

text \<open>
  Second pass, for one row. First the spouse snapshot is attached to the row's node,
  when the spouse resolves.
\<close>

definition linkSpouse :: "person \<Rightarrow> nodeMap \<Rightarrow> nodeMap" where
  "linkSpouse p pm =
     (case spouseId p of
        None \<Rightarrow> pm
      | Some sp \<Rightarrow>
          if truthy (Some sp)
          then (case map_of pm sp of
                  None \<Rightarrow> pm
                | Some spouseNode \<Rightarrow>
                    AList.map_entry (idP p)
                      (\<lambda>n. n\<lparr>spouse := Some (spouseData.truncate (row spouseNode))\<rparr>) pm)
          else pm)"

text \<open>Then the node is appended to its parent's children, when the parent resolves.\<close>

definition linkParent :: "person \<Rightarrow> nodeMap \<Rightarrow> nodeMap" where
  "linkParent p pm =
     (case parentId p of
        None \<Rightarrow> pm
      | Some par \<Rightarrow>
          if hasParent (Some par)
          then (case map_of pm par of
                  None \<Rightarrow> pm
                | Some parentNode \<Rightarrow>
                    AList.map_entry par (\<lambda>n. n\<lparr>children := children n @ [idP p]\<rparr>) pm)
          else pm)"

definition linkNode :: "person \<Rightarrow> nodeMap \<Rightarrow> nodeMap" where
  "linkNode p pm = linkParent p (linkSpouse p pm)"

text \<open>The nodes after both passes, and the set \<^verbatim>\<open>childIds\<close>.\<close>

definition buildNodes :: "store \<Rightarrow> nodeMap" where
  "buildNodes ps = fold linkNode ps (fst (fold createNode ps ([], {})))"

definition childIdsOf :: "store \<Rightarrow> pid set" where
  "childIdsOf ps = snd (fold createNode ps ([], {}))"

text \<open>
  \<^verbatim>\<open>persons.filter(p => !childIds.has(p.id) && p.parentId !== 'SPOUSE')\<close>, as the keys
  of the nodes.
\<close>

definition potentialRoots :: "store \<Rightarrow> pid list" where
  "potentialRoots ps =
     map idP (filter (\<lambda>p. idP p \<notin> childIdsOf ps \<and> parentId p \<noteq> Some SPOUSE) ps)"

text \<open>
  \<^verbatim>\<open>countNodes\<close>. The recursion of the source has no bound; \<open>fuel\<close> bounds its depth
  here, and \<open>None\<close> says that the recursion did not end within it.
\<close>

fun countNodes :: "nat \<Rightarrow> nodeMap \<Rightarrow> pid \<Rightarrow> nat option" where
  "countNodes 0 pm i = None"
| "countNodes (Suc fuel) pm i =
     (case map_of pm i of
        None \<Rightarrow> None
      | Some n \<Rightarrow>
          (case fold (\<lambda>child sum.
                        case sum of
                          None \<Rightarrow> None
                        | Some s \<Rightarrow> map_option (\<lambda>c. s + c) (countNodes fuel pm child))
                     (children n) (Some 0) of
             None \<Rightarrow> None
           | Some childCount \<Rightarrow> Some (1 + childCount)))"

text \<open>The loop over the potential roots; the state is \<^verbatim>\<open>(maxNodes, root)\<close>.\<close>

fun pickLargest :: "nat \<Rightarrow> nodeMap \<Rightarrow> pid list \<Rightarrow> nat \<times> pid option \<Rightarrow> (nat \<times> pid option) option" where
  "pickLargest fuel pm [] st = Some st"
| "pickLargest fuel pm (potentialRoot # rest) (maxNodes, r) =
     (case countNodes fuel pm potentialRoot of
        None \<Rightarrow> None
      | Some count \<Rightarrow>
          pickLargest fuel pm rest
            (if count > maxNodes then (count, Some potentialRoot) else (maxNodes, r)))"

text \<open>
  \<^verbatim>\<open>getFamilyTree\<close>. An absent \<^verbatim>\<open>rootId\<close> is \<open>None\<close>; the test \<^verbatim>\<open>if (rootId)\<close> also
  takes the empty string for absent.
\<close>

definition returnRoot :: "nodeMap \<Rightarrow> pid option \<Rightarrow> error + familyTree" where
  "returnRoot pm r =
     (case r of
        None \<Rightarrow> Inl RootPersonNotFound
      | Some i \<Rightarrow>
          (case map_of pm i of
             None \<Rightarrow> Inl RootPersonNotFound
           | Some n \<Rightarrow> Inr \<lparr>root = n, treeNodes = pm\<rparr>))"

text \<open>
  The third pass when no root is asked for. With no potential root the first value of
  the map is taken (\<^verbatim>\<open>personMap.values().next().value\<close>).
\<close>

definition inferRoot :: "nat \<Rightarrow> nodeMap \<Rightarrow> pid list \<Rightarrow> (error + familyTree) option" where
  "inferRoot fuel pm roots =
     (case roots of
        [] \<Rightarrow>
          (case pm of
             [] \<Rightarrow> Some (Inl RootPersonNotFound)
           | (k, n) # _ \<Rightarrow> Some (Inr \<lparr>root = n, treeNodes = pm\<rparr>))
      | [r] \<Rightarrow> Some (returnRoot pm (Some r))
      | _ # _ # _ \<Rightarrow>
          (case pickLargest fuel pm roots (0, None) of
             None \<Rightarrow> None
           | Some (maxNodes, r) \<Rightarrow> Some (returnRoot pm r)))"

definition getFamilyTree :: "nat \<Rightarrow> pid option \<Rightarrow> store \<Rightarrow> (error + familyTree) option" where
  "getFamilyTree fuel rootId persons =
     (if persons = [] then Some (Inl NoPersonsFound)
      else
        let pm = buildNodes persons in
        case rootId of
          Some i \<Rightarrow>
            if truthy (Some i)
            then (case map_of pm i of
                    None \<Rightarrow> Some (Inl (PersonWithIdNotFound i))
                  | Some n \<Rightarrow> Some (Inr \<lparr>root = n, treeNodes = pm\<rparr>))
            else inferRoot fuel pm (potentialRoots persons)
        | None \<Rightarrow> inferRoot fuel pm (potentialRoots persons))"

section \<open>Example stores\<close>

text \<open>A row with the given id and links; the descriptive columns are fixed.\<close>

definition examplePerson :: "pid \<Rightarrow> pid option \<Rightarrow> pid option \<Rightarrow> person" where
  "examplePerson i par sp =
     \<lparr>name = ''N-'' @ i, gender = Other, birthDate = ''1900-01-01'', deathDate = None,
      photoUrl = None, bio = None, location = None, idP = i, parentId = par, spouseId = sp\<rparr>"

definition exampleData :: personData where
  "exampleData =
     \<lparr>name = ''New'', gender = Female, birthDate = ''2000-01-01'', deathDate = None,
      photoUrl = None, bio = None, location = None\<rparr>"

text \<open>A couple \<open>P\<close>, \<open>S\<close> and the two children of \<open>P\<close>.\<close>

definition familyWithTwoChildren :: store where
  "familyWithTwoChildren =
     [examplePerson ''P'' None (Some ''S''),
      examplePerson ''S'' (Some SPOUSE) (Some ''P''),
      examplePerson ''K1'' (Some ''P'') None,
      examplePerson ''K2'' (Some ''P'') None]"

text \<open>A married couple: \<open>A\<close> and the spouse-only record \<open>B\<close>.\<close>

definition marriedCouple :: store where
  "marriedCouple =
     [examplePerson ''A'' None (Some ''B''),
      examplePerson ''B'' (Some SPOUSE) (Some ''A'')]"

text \<open>\<open>A\<close> is the parent of \<open>B\<close>, and \<open>B\<close> and \<open>C\<close> are spouses.\<close>

definition chainWithSpouse :: store where
  "chainWithSpouse =
     [examplePerson ''A'' None None,
      examplePerson ''B'' (Some ''A'') (Some ''C''),
      examplePerson ''C'' (Some SPOUSE) (Some ''B'')]"

text \<open>
  Two disjoint fragments: \<open>a\<close> with two children (three nodes) and \<open>b\<close> with two
  children and two grandchildren (five nodes).
\<close>

definition twoFragments :: store where
  "twoFragments =
     [examplePerson ''a'' None None,
      examplePerson ''a1'' (Some ''a'') None,
      examplePerson ''b'' None None,
      examplePerson ''b1'' (Some ''b'') None,
      examplePerson ''a2'' (Some ''a'') None,
      examplePerson ''b2'' (Some ''b'') None,
      examplePerson ''b11'' (Some ''b1'') None,
      examplePerson ''b12'' (Some ''b1'') None]"

section \<open>Properties of the SQL statements\<close>

lemma getPerson_Some:
  "getPerson i ps = Some p \<Longrightarrow> p \<in> set ps \<and> idP p = i"
  by (induction ps) (simp_all add: getPerson_def split: if_splits)

lemma getPerson_None: "getPerson i ps = None \<longleftrightarrow> i \<notin> set (ids ps)"
  by (induction ps) (simp_all add: getPerson_def ids_def)

lemma getPerson_member:
  "distinct (ids ps) \<Longrightarrow> r \<in> set ps \<Longrightarrow> getPerson (idP r) ps = Some r"
proof (induction ps)
  case Nil
  then show ?case by simp
next
  case (Cons q ps)
  show ?case
  proof (cases "r = q")
    case True
    then show ?thesis by (simp add: getPerson_def)
  next
    case False
    with Cons.prems have r: "r \<in> set ps" and d: "distinct (ids ps)"
      and q: "idP q \<notin> idP ` set ps"
      by (simp_all add: ids_def)
    from q r have "idP q \<noteq> idP r" by (metis imageI)
    with Cons.IH [OF d r] show ?thesis by (simp add: getPerson_def)
  qed
qed

lemma ids_setParentId [simp]: "ids (setParentId v i ps) = ids ps"
  by (induction ps) (simp_all add: ids_def setParentId_def)

lemma ids_setSpouseId [simp]: "ids (setSpouseId v i ps) = ids ps"
  by (induction ps) (simp_all add: ids_def setSpouseId_def)

lemma ids_setDetails [simp]: "ids (setDetails d i ps) = ids ps"
  by (induction ps) (simp_all add: ids_def setDetails_def)

lemma ids_orphanChildren [simp]: "ids (orphanChildren i ps) = ids ps"
  by (induction ps) (simp_all add: ids_def orphanChildren_def)

lemma ids_deleteRow [simp]: "ids (deleteRow i ps) = filter (\<lambda>j. j \<noteq> i) (ids ps)"
  by (induction ps) (simp_all add: ids_def deleteRow_def)

lemma filter_setSpouseId:
  "filter (\<lambda>r. idP r \<noteq> i) (setSpouseId v s ps) = setSpouseId v s (filter (\<lambda>r. idP r \<noteq> i) ps)"
  by (induction ps) (simp_all add: setSpouseId_def)

section \<open>Deleting a person\<close>

text \<open>What a surviving row \<open>r\<close> looks like after the person \<open>p\<close> has been deleted.\<close>

definition afterDelete :: "person \<Rightarrow> person \<Rightarrow> person" where
  "afterDelete p r =
     r\<lparr>parentId := (if parentId r = Some (idP p) then None else parentId r),
       spouseId := (if truthy (spouseId p) \<and> spouseId p = Some (idP r) then None else spouseId r)\<rparr>"

lemma idP_afterDelete [simp]: "idP (afterDelete p r) = idP r"
  by (simp add: afterDelete_def)

lemma deletePerson_result:
  assumes "getPerson i ps = Some p"
  shows "deletePerson i ps = Inr (name p, map (afterDelete p) (filter (\<lambda>r. idP r \<noteq> i) ps))"
proof -
  have i: "idP p = i" using assms by (simp add: getPerson_Some)
  have "orphanChildren i (deleteRow i (setSpouseId None s ps))
        = map (afterDelete p) (filter (\<lambda>r. idP r \<noteq> i) ps)"
    if "spouseId p = Some s" "s \<noteq> []" for s
    unfolding deleteRow_def filter_setSpouseId
    using that i
    by (simp add: orphanChildren_def setSpouseId_def afterDelete_def)
  moreover have "orphanChildren i (deleteRow i ps)
        = map (afterDelete p) (filter (\<lambda>r. idP r \<noteq> i) ps)"
    if "\<not> truthy (spouseId p)"
    using that i
    by (simp add: orphanChildren_def deleteRow_def afterDelete_def)
  ultimately show ?thesis
    using assms by (cases "spouseId p") (simp_all add: deletePerson_def Let_def)
qed

lemma ids_after_delete:
  "ids (map (afterDelete p) (filter (\<lambda>r. idP r \<noteq> i) ps)) = filter (\<lambda>j. j \<noteq> i) (ids ps)"
  by (induction ps) (simp_all add: ids_def)

lemma deletePerson_missing:
  "i \<notin> set (ids ps) \<Longrightarrow> deletePerson i ps = Inl PersonNotFound"
  using getPerson_None [of i ps] by (simp add: deletePerson_def)

text \<open>
  Claim C5. Let \<open>i\<close> be the id of a record \<open>p\<close> of a table with pairwise different ids.
  Then \<open>deletePerson i\<close> succeeds and reports \<open>p\<close>'s name; the table afterwards has the
  ids of the old one, in the same order, without \<open>i\<close> (nothing but the record itself is
  removed: the delete does not cascade); and every other record \<open>r\<close> is still there with
  its descriptive columns unchanged, with \<open>parentId\<close> NULL if it was \<open>i\<close> and unchanged
  otherwise, and with \<open>spouseId\<close> NULL if \<open>r\<close> is the record that \<open>p\<close>'s (non-empty)
  \<open>spouseId\<close> names and unchanged otherwise.
\<close>

theorem deletePerson_non_cascading:
  assumes "distinct (ids ps)" and "getPerson i ps = Some p"
  shows "\<exists>ps'. deletePerson i ps = Inr (name p, ps')
           \<and> ids ps' = filter (\<lambda>j. j \<noteq> i) (ids ps)
           \<and> getPerson i ps' = None
           \<and> (\<forall>r \<in> set ps. idP r \<noteq> i \<longrightarrow>
                 (\<exists>r'. getPerson (idP r) ps' = Some r'
                    \<and> personData.truncate r' = personData.truncate r
                    \<and> parentId r' = (if parentId r = Some i then None else parentId r)
                    \<and> spouseId r' = (if truthy (spouseId p) \<and> spouseId p = Some (idP r)
                                     then None else spouseId r)))"
proof -
  let ?ps' = "map (afterDelete p) (filter (\<lambda>r. idP r \<noteq> i) ps)"
  have i: "idP p = i" using assms(2) by (simp add: getPerson_Some)
  have ids': "ids ?ps' = filter (\<lambda>j. j \<noteq> i) (ids ps)"
    by (rule ids_after_delete)
  have d': "distinct (ids ?ps')" using assms(1) by (simp add: ids')
  have gone: "getPerson i ?ps' = None" by (simp add: getPerson_None ids')
  have each: "\<exists>r'. getPerson (idP r) ?ps' = Some r'
                    \<and> personData.truncate r' = personData.truncate r
                    \<and> parentId r' = (if parentId r = Some i then None else parentId r)
                    \<and> spouseId r' = (if truthy (spouseId p) \<and> spouseId p = Some (idP r)
                                     then None else spouseId r)"
    if "r \<in> set ps" "idP r \<noteq> i" for r
  proof -
    have "afterDelete p r \<in> set ?ps'" using that by simp
    from getPerson_member [OF d' this]
    have "getPerson (idP r) ?ps' = Some (afterDelete p r)" by simp
    then show ?thesis by (simp add: afterDelete_def i personData.truncate_def)
  qed
  from each have "\<forall>r \<in> set ps. idP r \<noteq> i \<longrightarrow>
                 (\<exists>r'. getPerson (idP r) ?ps' = Some r'
                    \<and> personData.truncate r' = personData.truncate r
                    \<and> parentId r' = (if parentId r = Some i then None else parentId r)
                    \<and> spouseId r' = (if truthy (spouseId p) \<and> spouseId p = Some (idP r)
                                     then None else spouseId r))"
    by simp
  with deletePerson_result [OF assms(2)] ids' gone show ?thesis
    by (intro exI [of _ ?ps'] conjI)
qed

text \<open>
  Deleting \<open>P\<close>, who has a spouse and two children: the spouse is unlinked and both
  children are still there, with \<open>parentId\<close> NULL.
\<close>

theorem deletePerson_non_cascading_witness:
  "distinct (ids familyWithTwoChildren)
   \<and> getPerson ''P'' familyWithTwoChildren = Some (examplePerson ''P'' None (Some ''S''))
   \<and> deletePerson ''P'' familyWithTwoChildren =
       Inr (''N-P'', [examplePerson ''S'' (Some SPOUSE) None,
                     examplePerson ''K1'' None None,
                     examplePerson ''K2'' None None])
   \<and> (\<exists>ps'. deletePerson ''P'' familyWithTwoChildren = Inr (''N-P'', ps')
         \<and> ids ps' = [''S'', ''K1'', ''K2''])"
  using deletePerson_non_cascading
    [of familyWithTwoChildren "''P''" "examplePerson ''P'' None (Some ''S'')"]
  by (simp add: familyWithTwoChildren_def examplePerson_def ids_def getPerson_def
      deletePerson_def setSpouseId_def deleteRow_def orphanChildren_def SPOUSE_def)

section \<open>Spouse symmetry\<close>

text \<open>The invariant of the data model: if \<open>A.spouseId = B.id\<close> then \<open>B.spouseId = A.id\<close>.\<close>

definition spouseSymmetric :: "store \<Rightarrow> bool" where
  "spouseSymmetric ps =
     (\<forall>a \<in> set ps. \<forall>b \<in> set ps. spouseId a = Some (idP b) \<longrightarrow> spouseId b = Some (idP a))"

text \<open>The spouse unlink of \<open>deletePerson\<close> keeps a symmetric table symmetric.\<close>

lemma deletePerson_keeps_symmetry:
  assumes sym: "spouseSymmetric ps" and del: "deletePerson i ps = Inr (n, ps')"
  shows "spouseSymmetric ps'"
proof -
  from del obtain p where p: "getPerson i ps = Some p"
    by (cases "getPerson i ps") (simp_all add: deletePerson_def)
  then have pin: "p \<in> set ps" and pi: "idP p = i"
    by (simp_all add: getPerson_Some)
  from del deletePerson_result [OF p]
  have ps': "ps' = map (afterDelete p) (filter (\<lambda>r. idP r \<noteq> i) ps)" by simp
  have "spouseId (afterDelete p b) = Some (idP a)"
    if a: "a \<in> set ps" "idP a \<noteq> i" and b: "b \<in> set ps"
      and link: "spouseId (afterDelete p a) = Some (idP b)" for a b
  proof -
    from link have ab: "spouseId a = Some (idP b)"
      by (simp add: afterDelete_def split: if_splits)
    with sym a(1) b have ba: "spouseId b = Some (idP a)"
      unfolding spouseSymmetric_def by blast
    have "spouseId p \<noteq> Some (idP b)"
    proof
      assume "spouseId p = Some (idP b)"
      with sym pin b have "spouseId b = Some (idP p)"
        unfolding spouseSymmetric_def by blast
      with ba pi a(2) show False by simp
    qed
    with ba show ?thesis by (simp add: afterDelete_def)
  qed
  then have "\<forall>a \<in> set ps. idP a \<noteq> i \<longrightarrow> (\<forall>b \<in> set ps. idP b \<noteq> i \<longrightarrow>
           spouseId (afterDelete p a) = Some (idP b) \<longrightarrow> spouseId (afterDelete p b) = Some (idP a))"
    by blast
  then show ?thesis
    unfolding spouseSymmetric_def ps' by simp
qed

lemma setParentId_same:
  "q \<in> set ps \<Longrightarrow> idP q = i \<Longrightarrow> q\<lparr>parentId := v\<rparr> \<in> set (setParentId v i ps)"
  unfolding setParentId_def set_map by (rule image_eqI [where x = q]) simp_all

lemma setParentId_other:
  "q \<in> set ps \<Longrightarrow> idP q \<noteq> i \<Longrightarrow> q \<in> set (setParentId v i ps)"
  unfolding setParentId_def set_map by (rule image_eqI [where x = q]) simp_all

lemma setSpouseId_same:
  "q \<in> set ps \<Longrightarrow> idP q = i \<Longrightarrow> q\<lparr>spouseId := v\<rparr> \<in> set (setSpouseId v i ps)"
  unfolding setSpouseId_def set_map by (rule image_eqI [where x = q]) simp_all

lemma setSpouseId_other:
  "q \<in> set ps \<Longrightarrow> idP q \<noteq> i \<Longrightarrow> q \<in> set (setSpouseId v i ps)"
  unfolding setSpouseId_def set_map by (rule image_eqI [where x = q]) simp_all

text \<open>
  Adding a spouse to an existing anchor under a fresh id links the two records to each
  other.
\<close>

lemma addPerson_Spouse_mutual:
  assumes d: "distinct (ids ps)" and a: "anchor \<in> set (ids ps)"
    and fresh: "newPersonId stamp \<notin> set (ids ps)"
  shows "\<exists>r ps' pa pn. addPerson stamp data Spouse anchor ps = Inr (r, ps')
           \<and> getPerson anchor ps' = Some pa \<and> spouseId pa = Some (newPersonId stamp)
           \<and> getPerson (newPersonId stamp) ps' = Some pn \<and> spouseId pn = Some anchor"
proof -
  let ?new = "newPersonId stamp"
  let ?row = "\<lparr>name = name data, gender = gender data, birthDate = birthDate data,
               deathDate = deathDate data, photoUrl = photoUrl data, bio = bio data,
               location = location data, idP = ?new, parentId = None, spouseId = None\<rparr>"
  let ?ps' = "setSpouseId (Some anchor) ?new
                (setSpouseId (Some ?new) anchor (setParentId (Some SPOUSE) ?new (ps @ [?row])))"
  from a fresh have ne: "anchor \<noteq> ?new" by auto
  have res: "addPerson stamp data Spouse anchor ps = Inr (getPerson ?new ?ps', ?ps')"
    using fresh by (simp add: addPerson_def insertPerson_def Let_def)
  from a obtain q where q: "q \<in> set ps" "idP q = anchor"
    by (auto simp: ids_def)
  have "ids ?ps' = ids ps @ [?new]" by (simp add: ids_def [of "ps @ [?row]"]) (simp add: ids_def)
  with d fresh have d': "distinct (ids ?ps')" by simp
  have "q \<in> set (setParentId (Some SPOUSE) ?new (ps @ [?row]))"
    using q ne by (intro setParentId_other) simp_all
  then have "q\<lparr>spouseId := Some ?new\<rparr> \<in> set ?ps'"
    using q ne by (intro setSpouseId_other setSpouseId_same) simp_all
  from getPerson_member [OF d' this] q
  have 1: "getPerson anchor ?ps' = Some (q\<lparr>spouseId := Some ?new\<rparr>)" by simp
  have "?row\<lparr>parentId := Some SPOUSE\<rparr> \<in> set (setParentId (Some SPOUSE) ?new (ps @ [?row]))"
    by (intro setParentId_same) simp_all
  then have "?row\<lparr>parentId := Some SPOUSE\<rparr>
               \<in> set (setSpouseId (Some ?new) anchor (setParentId (Some SPOUSE) ?new (ps @ [?row])))"
    using ne by (intro setSpouseId_other) simp_all
  then have "?row\<lparr>parentId := Some SPOUSE\<rparr>\<lparr>spouseId := Some anchor\<rparr> \<in> set ?ps'"
    by (intro setSpouseId_same) simp_all
  then have "?row\<lparr>parentId := Some SPOUSE, spouseId := Some anchor\<rparr> \<in> set ?ps'"
    by simp
  from getPerson_member [OF d' this]
  have 2: "getPerson ?new ?ps' = Some (?row\<lparr>parentId := Some SPOUSE, spouseId := Some anchor\<rparr>)"
    by simp
  show ?thesis using res 1 2 by simp
qed

text \<open>
  Claim C3, at an anchor who is already married. \<open>A\<close> and \<open>B\<close> are spouses of each other;
  a new spouse is added to \<open>A\<close>. Afterwards \<open>A\<close> and the new record name each other, and
  \<open>B\<close> still names \<open>A\<close>: the table is no longer symmetric.
\<close>

theorem addPerson_Spouse_leaves_old_link:
  "addPerson ''1'' exampleData Spouse ''A'' marriedCouple =
     Inr (Some (examplePerson ''person-1'' (Some SPOUSE) (Some ''A'')
                 \<lparr>name := ''New'', gender := Female, birthDate := ''2000-01-01''\<rparr>),
          [examplePerson ''A'' None (Some ''person-1''),
           examplePerson ''B'' (Some SPOUSE) (Some ''A''),
           examplePerson ''person-1'' (Some SPOUSE) (Some ''A'')
             \<lparr>name := ''New'', gender := Female, birthDate := ''2000-01-01''\<rparr>])"
  by (simp add: addPerson_def insertPerson_def newPersonId_def marriedCouple_def
      examplePerson_def exampleData_def ids_def getPerson_def setSpouseId_def setParentId_def
      SPOUSE_def Let_def)

lemma marriedCouple_symmetric: "spouseSymmetric marriedCouple"
  by (simp add: spouseSymmetric_def marriedCouple_def examplePerson_def)

lemma remarried_not_symmetric:
  "\<not> spouseSymmetric
       [examplePerson ''A'' None (Some ''person-1''),
        examplePerson ''B'' (Some SPOUSE) (Some ''A''),
        examplePerson ''person-1'' (Some SPOUSE) (Some ''A'')
          \<lparr>name := ''New'', gender := Female, birthDate := ''2000-01-01''\<rparr>]"
  by (simp add: spouseSymmetric_def examplePerson_def)

section \<open>Updating a person\<close>

lemma updatePerson_returns:
  "\<exists>ps'. updatePerson i d sp ps = Inr (getPerson i ps', ps') \<and> ids ps' = ids ps"
  by (cases sp) (simp_all add: updatePerson_def Let_def)

lemma updatePerson_missing:
  assumes "i \<notin> set (ids ps)"
  shows "\<exists>ps'. updatePerson i d sp ps = Inr (None, ps')"
proof -
  obtain ps' where r: "updatePerson i d sp ps = Inr (getPerson i ps', ps')"
    and "ids ps' = ids ps"
    using updatePerson_returns by blast
  with assms have "getPerson i ps' = None" by (simp add: getPerson_None)
  with r show ?thesis by simp
qed

text \<open>
  Claim C8, at an id that has no record: \<open>updatePerson\<close> signals nothing. It resolves
  with \<^verbatim>\<open>undefined\<close> (the row read back) and leaves the table as it was.
\<close>

theorem updatePerson_missing_id_no_error:
  "updatePerson ''ghost'' exampleData None marriedCouple = Inr (None, marriedCouple)"
  by (simp add: updatePerson_def setDetails_def getPerson_def marriedCouple_def
      examplePerson_def)

section \<open>What the search returns\<close>

lemma detailedPath_ids:
  "detailedPath pm prev path = Inr segs \<Longrightarrow> map personId segs = path"
proof (induction path arbitrary: prev segs)
  case Nil
  then show ?case by simp
next
  case (Cons c rest)
  from Cons.prems obtain segs' r where "detailedPath pm (Some c) rest = Inr segs'"
    and "segs = \<lparr>personId = c, personName = r, relationship = relationship (hd segs)\<rparr> # segs'"
    by (auto split: option.splits sum.splits)
  with Cons.IH [of "Some c" segs'] show ?case
    by (metis PathSegment.select_convs(1) list.simps(9))
qed

lemma detailedPath_first:
  "detailedPath pm None (c # rest) = Inr segs \<Longrightarrow> relationship (hd segs) = hop_start"
  by (auto split: option.splits sum.splits)

lemma detailedPath_next:
  "detailedPath pm (Some pv) (c # rest) = Inr segs \<Longrightarrow>
     \<exists>pp. pm pv = Some pp \<and> relationship (hd segs) = hopType pp c"
  by (auto split: option.splits sum.splits)

lemma detailedPath_hops:
  "detailedPath pm prev path = Inr segs \<Longrightarrow> 0 < i \<Longrightarrow> i < length segs \<Longrightarrow>
     \<exists>pp. pm (path ! (i - 1)) = Some pp \<and> relationship (segs ! i) = hopType pp (path ! i)"
proof (induction path arbitrary: prev segs i)
  case Nil
  then show ?case by simp
next
  case (Cons c rest)
  from Cons.prems(1) obtain segs' s0 where rest: "detailedPath pm (Some c) rest = Inr segs'"
    and segs: "segs = s0 # segs'"
    by (auto split: option.splits sum.splits)
  from Cons.prems(2) obtain j where i: "i = Suc j" by (cases i) simp_all
  with Cons.prems(3) segs have j: "j < length segs'" by simp
  from detailedPath_ids [OF rest] have len: "length segs' = length rest"
    by (metis length_map)
  show ?case
  proof (cases j)
    case 0
    from j len obtain d rest' where r': "rest = d # rest'" by (cases rest) simp_all
    with rest detailedPath_next [of pm c d rest' segs']
    obtain pp where "pm c = Some pp" "relationship (hd segs') = hopType pp d" by blast
    moreover from j have "segs' ! 0 = hd segs'" by (cases segs') simp_all
    ultimately show ?thesis using i 0 segs r' by simp
  next
    case (Suc k)
    with Cons.IH [OF rest _ j] i segs show ?thesis by simp
  qed
qed

text \<open>What holds of every path in the queue: it starts at \<open>s\<close> and visits no node twice.\<close>

definition simpleFrom :: "pid \<Rightarrow> pid set \<Rightarrow> pid list \<Rightarrow> bool" where
  "simpleFrom s vis p = (p \<noteq> [] \<and> hd p = s \<and> distinct p \<and> set p \<subseteq> vis)"

lemma visit_simpleFrom:
  "fold (visit path) ns (vis, q) = (vis', q') \<Longrightarrow> simpleFrom s vis path \<Longrightarrow>
     list_all (simpleFrom s vis) q \<Longrightarrow> list_all (simpleFrom s vis') q'"
proof (induction ns arbitrary: vis q)
  case Nil
  then show ?case by simp
next
  case (Cons n ns)
  show ?case
  proof (cases "n \<in> vis")
    case True
    with Cons show ?thesis by simp
  next
    case False
    with Cons.prems(1)
    have f: "fold (visit path) ns (insert n vis, q @ [path @ [n]]) = (vis', q')" by simp
    have mono: "simpleFrom s (insert n vis) p" if "simpleFrom s vis p" for p
      using that by (auto simp: simpleFrom_def)
    from Cons.prems(2) False have new: "simpleFrom s (insert n vis) (path @ [n])"
      by (auto simp: simpleFrom_def)
    from Cons.prems(3) mono have "list_all (simpleFrom s (insert n vis)) q"
      by (simp add: list_all_iff)
    with new have "list_all (simpleFrom s (insert n vis)) (q @ [path @ [n]])" by simp
    from Cons.IH [OF f mono [OF Cons.prems(2)] this] show ?thesis .
  qed
qed

lemma bfs_simple:
  "bfs adj e q vis = Some path \<Longrightarrow> list_all (simpleFrom s vis) q \<Longrightarrow>
     path \<noteq> [] \<and> hd path = s \<and> last path = e \<and> distinct path"
proof (induction adj e q vis rule: bfs.induct)
  case (1 adj e vis)
  then show ?case by simp
next
  case (2 adj e p q vis)
  from "2.prems"(2) have p: "simpleFrom s vis p" and q: "list_all (simpleFrom s vis) q"
    by simp_all
  then have "p \<noteq> []" by (simp add: simpleFrom_def)
  then have l: "lastId p = Some (last p)" by (simp add: lastId_def)
  show ?case
  proof (cases "last p = e")
    case True
    with "2.prems"(1) l have "path = p" by simp
    with p True show ?thesis by (simp add: simpleFrom_def)
  next
    case False
    obtain vis' q' where f: "fold (visit p) (neighbors adj (last p)) (vis, q) = (vis', q')"
      by (cases "fold (visit p) (neighbors adj (last p)) (vis, q)")
    with "2.prems"(1) l False have r: "bfs adj e q' vis' = Some path" by simp
    from visit_simpleFrom [OF f p q] have "list_all (simpleFrom s vis') q'" .
    from "2.IH"(2) [OF l False f [symmetric] r this] show ?thesis .
  qed
qed

lemma findRelationshipPath_path:
  assumes "findRelationshipPath startId endId ps = Inr (Some segs)"
  shows "\<exists>path. bfs (buildAdjacency ps) endId [[startId]] {startId} = Some path
           \<and> detailedPath (personMap ps) None path = Inr segs
           \<and> map personId segs = path
           \<and> path \<noteq> [] \<and> hd path = startId \<and> last path = endId \<and> distinct path"
proof -
  from assms obtain path where b: "bfs (buildAdjacency ps) endId [[startId]] {startId} = Some path"
    and d: "detailedPath (personMap ps) None path = Inr segs"
    by (auto simp: findRelationshipPath_def split: option.splits sum.splits)
  have "list_all (simpleFrom startId {startId}) [[startId]]"
    by (simp add: simpleFrom_def)
  from bfs_simple [OF b this] detailedPath_ids [OF d] b d show ?thesis by simp
qed

lemma personMap_Some: "personMap ps i = Some p \<Longrightarrow> p \<in> set ps \<and> idP p = i"
  unfolding personMap_def by (auto dest!: map_of_SomeD)


lemma chainWithSpouse_adjacency:
  "buildAdjacency chainWithSpouse =
     [(''A'', [''B'']), (''B'', [''A'', ''C'', ''C'']), (''C'', [''B'', ''B''])]"
  by (simp add: buildAdjacency_def chainWithSpouse_def examplePerson_def addEdges_def
      ensure_def push_def hasParent_def SPOUSE_def)

lemma chainWithSpouse_A_to_C:
  "findRelationshipPath ''A'' ''C'' chainWithSpouse =
     Inr (Some [\<lparr>personId = ''A'', personName = ''N-A'', relationship = hop_start\<rparr>,
                \<lparr>personId = ''B'', personName = ''N-B'', relationship = hop_child\<rparr>,
                \<lparr>personId = ''C'', personName = ''N-C'', relationship = hop_spouse\<rparr>])"
  by (simp add: findRelationshipPath_def chainWithSpouse_adjacency neighbors_def lastId_def)
     (simp add: personMap_def chainWithSpouse_def examplePerson_def hopType_def SPOUSE_def)

lemma chainWithSpouse_C_to_A:
  "findRelationshipPath ''C'' ''A'' chainWithSpouse =
     Inr (Some [\<lparr>personId = ''C'', personName = ''N-C'', relationship = hop_start\<rparr>,
                \<lparr>personId = ''B'', personName = ''N-B'', relationship = hop_spouse\<rparr>,
                \<lparr>personId = ''A'', personName = ''N-A'', relationship = hop_parent\<rparr>])"
  by (simp add: findRelationshipPath_def chainWithSpouse_adjacency neighbors_def lastId_def)
     (simp add: personMap_def chainWithSpouse_def examplePerson_def hopType_def SPOUSE_def)

text \<open>
  Claim C10. Whenever \<open>findRelationshipPath\<close> returns a path (not \<^verbatim>\<open>null\<close>, no
  exception), the path has a first segment, which is \<open>startId\<close>, its last segment is
  \<open>endId\<close>, and no person occurs twice in it.
\<close>

theorem findRelationshipPath_simple_path:
  assumes "findRelationshipPath startId endId ps = Inr (Some segs)"
  shows "segs \<noteq> [] \<and> personId (hd segs) = startId \<and> personId (last segs) = endId
           \<and> distinct (map personId segs)"
proof -
  from findRelationshipPath_path [OF assms] obtain path where path: "map personId segs = path"
    and props: "path \<noteq> []" "hd path = startId" "last path = endId" "distinct path"
    by blast
  from path props(1) have ne: "segs \<noteq> []" by auto
  then have "hd path = personId (hd segs)" "last path = personId (last segs)"
    unfolding path [symmetric] by (simp_all add: hd_map last_map)
  with ne path props show ?thesis by simp
qed

theorem findRelationshipPath_simple_path_witness:
  "findRelationshipPath ''C'' ''A'' chainWithSpouse =
     Inr (Some [\<lparr>personId = ''C'', personName = ''N-C'', relationship = hop_start\<rparr>,
                \<lparr>personId = ''B'', personName = ''N-B'', relationship = hop_spouse\<rparr>,
                \<lparr>personId = ''A'', personName = ''N-A'', relationship = hop_parent\<rparr>])
   \<and> distinct [''C'', ''B'', ''A'']"
  using findRelationshipPath_simple_path [OF chainWithSpouse_C_to_A] chainWithSpouse_C_to_A
  by simp

text \<open>
  Claim C4. In every path that \<open>findRelationshipPath\<close> returns, the first segment is
  tagged \<open>start\<close>, and every later segment is tagged by the record \<open>prev\<close> of the segment
  before it: \<open>parent\<close> if \<open>prev\<close>'s \<open>parentId\<close> is the segment's person, otherwise
  \<open>spouse\<close> if \<open>prev\<close>'s \<open>spouseId\<close> is, otherwise \<open>child\<close>. In the table where \<open>A\<close> is
  the parent of \<open>B\<close> and \<open>B\<close> and \<open>C\<close> are spouses, the path from \<open>A\<close> to \<open>C\<close> is
  \<open>[start:A, child:B, spouse:C]\<close>.
\<close>

theorem findRelationshipPath_hop_tags:
  "(findRelationshipPath startId endId ps = Inr (Some segs) \<longrightarrow>
      relationship (hd segs) = hop_start
      \<and> (\<forall>i. 0 < i \<and> i < length segs \<longrightarrow>
            (\<exists>prev \<in> set ps.
                idP prev = personId (segs ! (i - 1))
                \<and> personMap ps (personId (segs ! (i - 1))) = Some prev
                \<and> relationship (segs ! i) =
                    (if parentId prev = Some (personId (segs ! i)) then hop_parent
                     else if spouseId prev = Some (personId (segs ! i)) then hop_spouse
                     else hop_child))))
   \<and> findRelationshipPath ''A'' ''C'' chainWithSpouse =
       Inr (Some [\<lparr>personId = ''A'', personName = ''N-A'', relationship = hop_start\<rparr>,
                  \<lparr>personId = ''B'', personName = ''N-B'', relationship = hop_child\<rparr>,
                  \<lparr>personId = ''C'', personName = ''N-C'', relationship = hop_spouse\<rparr>])"
proof (intro conjI impI allI)
  assume r: "findRelationshipPath startId endId ps = Inr (Some segs)"
  from findRelationshipPath_path [OF r] obtain path
    where d: "detailedPath (personMap ps) None path = Inr segs"
      and path: "map personId segs = path" and ne: "path \<noteq> []"
    by blast
  from ne obtain c rest where "path = c # rest" by (cases path) simp_all
  with d show "relationship (hd segs) = hop_start"
    by (simp only: detailedPath_first)
  fix i
  assume i: "0 < i \<and> i < length segs"
  with detailedPath_hops [OF d, of i] obtain pp
    where pp: "personMap ps (path ! (i - 1)) = Some pp"
      and rel: "relationship (segs ! i) = hopType pp (path ! i)"
    by blast
  from i path have "path ! (i - 1) = personId (segs ! (i - 1))" "path ! i = personId (segs ! i)"
    by auto
  with pp rel personMap_Some [OF pp]
  show "\<exists>prev \<in> set ps.
                idP prev = personId (segs ! (i - 1))
                \<and> personMap ps (personId (segs ! (i - 1))) = Some prev
                \<and> relationship (segs ! i) =
                    (if parentId prev = Some (personId (segs ! i)) then hop_parent
                     else if spouseId prev = Some (personId (segs ! i)) then hop_spouse
                     else hop_child)"
    by (intro bexI [of _ pp]) (simp_all add: hopType_def)
next
  show "findRelationshipPath ''A'' ''C'' chainWithSpouse =
       Inr (Some [\<lparr>personId = ''A'', personName = ''N-A'', relationship = hop_start\<rparr>,
                  \<lparr>personId = ''B'', personName = ''N-B'', relationship = hop_child\<rparr>,
                  \<lparr>personId = ''C'', personName = ''N-C'', relationship = hop_spouse\<rparr>])"
    by (rule chainWithSpouse_A_to_C)
qed

theorem findRelationshipPath_hop_tags_witness:
  "findRelationshipPath ''A'' ''C'' chainWithSpouse =
     Inr (Some [\<lparr>personId = ''A'', personName = ''N-A'', relationship = hop_start\<rparr>,
                \<lparr>personId = ''B'', personName = ''N-B'', relationship = hop_child\<rparr>,
                \<lparr>personId = ''C'', personName = ''N-C'', relationship = hop_spouse\<rparr>])
   \<and> personMap chainWithSpouse ''A'' = Some (examplePerson ''A'' None None)
   \<and> personMap chainWithSpouse ''B'' = Some (examplePerson ''B'' (Some ''A'') (Some ''C''))"
  using findRelationshipPath_hop_tags
    [of "''A''" "''C''" chainWithSpouse
        "[\<lparr>personId = ''A'', personName = ''N-A'', relationship = hop_start\<rparr>,
          \<lparr>personId = ''B'', personName = ''N-B'', relationship = hop_child\<rparr>,
          \<lparr>personId = ''C'', personName = ''N-C'', relationship = hop_spouse\<rparr>]"]
  by (simp add: personMap_def chainWithSpouse_def examplePerson_def)

text \<open>
  Three spouses were added to \<open>A\<close>, one after the other, and then \<open>A\<close> was deleted: the
  first two still name \<open>A\<close> as their spouse.
\<close>

definition widowedSpouses :: store where
  "widowedSpouses =
     [examplePerson ''person-1'' (Some SPOUSE) (Some ''A''),
      examplePerson ''person-2'' (Some SPOUSE) (Some ''A''),
      examplePerson ''person-3'' (Some SPOUSE) None]"

text \<open>Two children were added to an anchor \<open>X\<close> that has no record.\<close>

definition childrenOfNobody :: store where
  "childrenOfNobody =
     [examplePerson ''person-1'' (Some ''X'') None,
      examplePerson ''person-2'' (Some ''X'') None]"

lemma childrenOfNobody_from_addPerson:
  "\<exists>d1 d2 r1 r2 ps1.
      addPerson ''1'' d1 Child ''X'' [] = Inr (r1, ps1)
      \<and> addPerson ''2'' d2 Child ''X'' ps1 = Inr (r2, childrenOfNobody)"
proof -
  let ?d = "\<lambda>i. \<lparr>name = ''N-person-'' @ i, gender = Other, birthDate = ''1900-01-01'',
                  deathDate = None, photoUrl = None, bio = None, location = None\<rparr>"
  have "addPerson ''1'' (?d ''1'') Child ''X'' [] =
          Inr (Some (examplePerson ''person-1'' (Some ''X'') None),
               [examplePerson ''person-1'' (Some ''X'') None])"
    by (simp add: addPerson_def insertPerson_def newPersonId_def examplePerson_def ids_def
        getPerson_def setParentId_def Let_def)
  moreover have "addPerson ''2'' (?d ''2'') Child ''X'' [examplePerson ''person-1'' (Some ''X'') None] =
          Inr (Some (examplePerson ''person-2'' (Some ''X'') None), childrenOfNobody)"
    by (simp add: addPerson_def insertPerson_def newPersonId_def examplePerson_def ids_def
        getPerson_def setParentId_def Let_def childrenOfNobody_def)
  ultimately show ?thesis by blast
qed

lemma widowedSpouses_from_mutations:
  "\<exists>d1 d2 d3 r1 r2 r3 ps1 ps2 ps3 n.
      addPerson ''1'' d1 Spouse ''A'' [examplePerson ''A'' None None] = Inr (r1, ps1)
      \<and> addPerson ''2'' d2 Spouse ''A'' ps1 = Inr (r2, ps2)
      \<and> addPerson ''3'' d3 Spouse ''A'' ps2 = Inr (r3, ps3)
      \<and> deletePerson ''A'' ps3 = Inr (n, widowedSpouses)"
proof -
  let ?d = "\<lambda>i. \<lparr>name = ''N-person-'' @ i, gender = Other, birthDate = ''1900-01-01'',
                  deathDate = None, photoUrl = None, bio = None, location = None\<rparr>"
  let ?ps1 = "[examplePerson ''A'' None (Some ''person-1''),
               examplePerson ''person-1'' (Some SPOUSE) (Some ''A'')]"
  let ?ps2 = "[examplePerson ''A'' None (Some ''person-2''),
               examplePerson ''person-1'' (Some SPOUSE) (Some ''A''),
               examplePerson ''person-2'' (Some SPOUSE) (Some ''A'')]"
  let ?ps3 = "[examplePerson ''A'' None (Some ''person-3''),
               examplePerson ''person-1'' (Some SPOUSE) (Some ''A''),
               examplePerson ''person-2'' (Some SPOUSE) (Some ''A''),
               examplePerson ''person-3'' (Some SPOUSE) (Some ''A'')]"
  have 1: "addPerson ''1'' (?d ''1'') Spouse ''A'' [examplePerson ''A'' None None] =
          Inr (Some (examplePerson ''person-1'' (Some SPOUSE) (Some ''A'')), ?ps1)"
    by (simp add: addPerson_def insertPerson_def newPersonId_def examplePerson_def ids_def
        getPerson_def setParentId_def setSpouseId_def Let_def SPOUSE_def)
  have 2: "addPerson ''2'' (?d ''2'') Spouse ''A'' ?ps1 =
          Inr (Some (examplePerson ''person-2'' (Some SPOUSE) (Some ''A'')), ?ps2)"
    by (simp add: addPerson_def insertPerson_def newPersonId_def examplePerson_def ids_def
        getPerson_def setParentId_def setSpouseId_def Let_def SPOUSE_def)
  have 3: "addPerson ''3'' (?d ''3'') Spouse ''A'' ?ps2 =
          Inr (Some (examplePerson ''person-3'' (Some SPOUSE) (Some ''A'')), ?ps3)"
    by (simp add: addPerson_def insertPerson_def newPersonId_def examplePerson_def ids_def
        getPerson_def setParentId_def setSpouseId_def Let_def SPOUSE_def)
  have 4: "deletePerson ''A'' ?ps3 = Inr (''N-A'', widowedSpouses)"
    by (simp add: deletePerson_def getPerson_def examplePerson_def setSpouseId_def
        deleteRow_def orphanChildren_def widowedSpouses_def SPOUSE_def)
  from 1 2 3 4 show ?thesis by blast
qed

lemma widowedSpouses_adjacency:
  "buildAdjacency widowedSpouses =
     [(''person-1'', [''A'']), (''A'', [''person-1'', ''person-2'']), (''person-2'', [''A'']),
      (''person-3'', [])]"
  by (simp add: buildAdjacency_def widowedSpouses_def examplePerson_def addEdges_def
      ensure_def push_def hasParent_def SPOUSE_def)

text \<open>
  Claim C2, at a table with a dangling link. No chain of resolvable links joins
  \<open>person-1\<close> and \<open>person-2\<close> (the only links name \<open>A\<close>, who has no record), so the
  answer should be \<^verbatim>\<open>null\<close>. The search walks through the missing \<open>A\<close> and the
  reconstruction of the path throws.
\<close>

theorem findRelationshipPath_dangling_link:
  "findRelationshipPath ''person-1'' ''person-2'' widowedSpouses = Inl TypeError"
  by (simp add: findRelationshipPath_def widowedSpouses_adjacency neighbors_def lastId_def)
     (simp add: personMap_def widowedSpouses_def examplePerson_def)

lemma findRelationshipPath_childrenOfNobody:
  "findRelationshipPath ''person-1'' ''person-2'' childrenOfNobody = Inl TypeError"
proof -
  have "buildAdjacency childrenOfNobody =
          [(''person-1'', [''X'']), (''X'', [''person-1'', ''person-2'']), (''person-2'', [''X''])]"
    by (simp add: buildAdjacency_def childrenOfNobody_def examplePerson_def addEdges_def
        ensure_def push_def hasParent_def SPOUSE_def)
  then show ?thesis
    by (simp add: findRelationshipPath_def neighbors_def lastId_def)
       (simp add: personMap_def childrenOfNobody_def examplePerson_def)
qed

section \<open>The adjacency lists\<close>

lemma neighbors_ensure [simp]: "neighbors (ensure k adj) a = neighbors adj a"
  by (simp add: neighbors_def ensure_def map_add_def split: option.splits)

lemma dom_ensure [simp]: "dom (map_of (ensure k adj)) = insert k (dom (map_of adj))"
  by (auto simp: ensure_def)

lemma dom_push [simp]: "dom (map_of (push k v adj)) = dom (map_of adj)"
  by (simp add: push_def dom_map_of_conv_image_fst dom_map_entry)

lemma neighbors_push:
  "k \<in> dom (map_of adj) \<Longrightarrow>
     neighbors (push k v adj) a = neighbors adj a @ (if a = k then [v] else [])"
  by (auto simp: neighbors_def push_def map_of_map_entry split: option.splits)

text \<open>What one row appends to the neighbour list of \<open>a\<close>.\<close>

definition edgesOf :: "person \<Rightarrow> pid \<Rightarrow> pid list" where
  "edgesOf p a =
     (case parentId p of
        None \<Rightarrow> []
      | Some par \<Rightarrow>
          if hasParent (Some par)
          then (if a = idP p then [par] else []) @ (if a = par then [idP p] else [])
          else [])
     @ (case spouseId p of
          None \<Rightarrow> []
        | Some sp \<Rightarrow>
            if truthy (Some sp)
            then (if a = idP p then [sp] else []) @ (if a = sp then [idP p] else [])
            else [])"

lemma neighbors_link:
  assumes "idP p \<in> dom (map_of adj)"
  shows "neighbors (push x (idP p) (push (idP p) x (ensure x adj))) a =
     neighbors adj a @ (if a = idP p then [x] else []) @ (if a = x then [idP p] else [])"
proof -
  from assms have 1: "idP p \<in> dom (map_of (ensure x adj))" by simp
  have 2: "x \<in> dom (map_of (push (idP p) x (ensure x adj)))" by simp
  show ?thesis by (simp add: neighbors_push [OF 2] neighbors_push [OF 1])
qed

lemma neighbors_addEdges:
  "neighbors (addEdges p adj) a = neighbors adj a @ edgesOf p a"
proof -
  let ?adj1 = "ensure (idP p) adj"
  have h1: "idP p \<in> dom (map_of ?adj1)" by simp
  let ?adj2 = "case parentId p of
                    None \<Rightarrow> ?adj1
                  | Some par \<Rightarrow>
                      if hasParent (Some par)
                      then push par (idP p) (push (idP p) par (ensure par ?adj1))
                      else ?adj1"
  have h2: "idP p \<in> dom (map_of ?adj2)"
    by (simp split: option.splits)
  have n2: "neighbors ?adj2 a = neighbors adj a @
      (case parentId p of
        None \<Rightarrow> []
      | Some par \<Rightarrow>
          if hasParent (Some par)
          then (if a = idP p then [par] else []) @ (if a = par then [idP p] else [])
          else [])"
    by (simp add: neighbors_link [OF h1] split: option.splits)
  show ?thesis
    unfolding addEdges_def Let_def edgesOf_def
    by (cases "spouseId p") (simp_all add: n2 neighbors_link [OF h2] del: truthy.simps)
qed

lemma neighbors_fold_addEdges:
  "neighbors (fold addEdges ps adj) a = neighbors adj a @ concat (map (\<lambda>p. edgesOf p a) ps)"
  by (induction ps arbitrary: adj) (simp_all add: neighbors_addEdges)

lemma neighbors_buildAdjacency:
  "neighbors (buildAdjacency ps) a = concat (map (\<lambda>p. edgesOf p a) ps)"
proof -
  have "neighbors [] a = []" by (simp add: neighbors_def)
  then show ?thesis by (simp add: buildAdjacency_def neighbors_fold_addEdges)
qed

lemma count_list_concat_map:
  "count_list (concat (map f ps)) b = sum_list (map (\<lambda>p. count_list (f p) b) ps)"
  by (induction ps) simp_all

lemma count_neighbors:
  "count_list (neighbors (buildAdjacency ps) a) b =
     sum_list (map (\<lambda>p. count_list (edgesOf p a) b) ps)"
  by (simp add: neighbors_buildAdjacency count_list_concat_map)


lemma count_edgesOf_spouse_pair:
  assumes ne: "idP A \<noteq> idP B" and tB: "idP B \<noteq> []" and tA: "idP A \<noteq> []"
    and sA: "spouseId A = Some (idP B)" and sB: "spouseId B = Some (idP A)"
    and pA: "parentId A \<noteq> Some (idP B)" and pB: "parentId B \<noteq> Some (idP A)"
  shows "count_list (edgesOf A (idP A)) (idP B) = 1"
    and "count_list (edgesOf B (idP A)) (idP B) = 1"
    and "idP p \<noteq> idP A \<Longrightarrow> idP p \<noteq> idP B \<Longrightarrow> count_list (edgesOf p (idP A)) (idP B) = 0"
proof -
  show "count_list (edgesOf A (idP A)) (idP B) = 1"
    using ne tB sA pA by (cases "parentId A") (simp_all add: edgesOf_def)
  show "count_list (edgesOf B (idP A)) (idP B) = 1"
    using ne tA sB pB by (cases "parentId B") (auto simp: edgesOf_def)
  show "count_list (edgesOf p (idP A)) (idP B) = 0" if "idP p \<noteq> idP A" "idP p \<noteq> idP B"
    using that by (cases "parentId p"; cases "spouseId p") (simp_all add: edgesOf_def)
qed

lemma spouse_pair_count:
  assumes d: "distinct (ids ps)" and A: "A \<in> set ps" and B: "B \<in> set ps"
    and ne: "idP A \<noteq> idP B" and tB: "idP B \<noteq> []" and tA: "idP A \<noteq> []"
    and sA: "spouseId A = Some (idP B)" and sB: "spouseId B = Some (idP A)"
    and pA: "parentId A \<noteq> Some (idP B)" and pB: "parentId B \<noteq> Some (idP A)"
  shows "count_list (neighbors (buildAdjacency ps) (idP A)) (idP B) = 2"
proof -
  let ?g = "\<lambda>p. count_list (edgesOf p (idP A)) (idP B)"
  note c = count_edgesOf_spouse_pair [OF ne tB tA sA sB pA pB]
  from d have dps: "distinct ps" by (simp add: ids_def distinct_map)
  have other: "?g p = 0" if "p \<in> set ps - {A, B}" for p
  proof -
    from that d A B have "idP p \<noteq> idP A" "idP p \<noteq> idP B"
      by (auto simp: ids_def distinct_map dest: inj_onD)
    then show ?thesis by (rule c(3))
  qed
  from ne have AB: "A \<noteq> B" by auto
  have "sum_list (map ?g ps) = sum ?g (set ps)"
    using dps by (rule sum_list_distinct_conv_sum_set)
  also have "\<dots> = sum ?g {A, B}"
    using A B other by (intro sum.mono_neutral_right) auto
  also have "\<dots> = 2" using AB c(1,2) by simp
  finally show ?thesis by (simp only: count_neighbors)
qed

text \<open>
  Claim C6 as the code has it. In a table with pairwise different ids, let \<open>A\<close> and \<open>B\<close>
  be two different records with non-empty ids that name each other as spouse, neither
  being the other's parent. Then \<open>B\<close> occurs exactly twice in \<open>A\<close>'s neighbour list and
  \<open>A\<close> exactly twice in \<open>B\<close>'s: the row of \<open>A\<close> adds the edge in both directions, and so
  does the row of \<open>B\<close>.
\<close>

theorem spouse_edge_added_from_both_sides:
  assumes "distinct (ids ps)" and "A \<in> set ps" and "B \<in> set ps"
    and "idP A \<noteq> idP B" and "idP A \<noteq> []" and "idP B \<noteq> []"
    and "spouseId A = Some (idP B)" and "spouseId B = Some (idP A)"
    and "parentId A \<noteq> Some (idP B)" and "parentId B \<noteq> Some (idP A)"
  shows "count_list (neighbors (buildAdjacency ps) (idP A)) (idP B) = 2
         \<and> count_list (neighbors (buildAdjacency ps) (idP B)) (idP A) = 2"
proof
  show "count_list (neighbors (buildAdjacency ps) (idP A)) (idP B) = 2"
    using assms by (intro spouse_pair_count) simp_all
  show "count_list (neighbors (buildAdjacency ps) (idP B)) (idP A) = 2"
    using assms by (intro spouse_pair_count) simp_all
qed

theorem spouse_edge_added_from_both_sides_witness:
  "distinct (ids marriedCouple)
   \<and> spouseId (examplePerson ''A'' None (Some ''B'')) = Some ''B''
   \<and> spouseId (examplePerson ''B'' (Some SPOUSE) (Some ''A'')) = Some ''A''
   \<and> count_list (neighbors (buildAdjacency marriedCouple) ''A'') ''B'' = 2
   \<and> count_list (neighbors (buildAdjacency marriedCouple) ''B'') ''A'' = 2"
  using spouse_edge_added_from_both_sides
    [of marriedCouple "examplePerson ''A'' None (Some ''B'')"
        "examplePerson ''B'' (Some SPOUSE) (Some ''A'')"]
  by (simp add: marriedCouple_def examplePerson_def ids_def SPOUSE_def)

text \<open>
  Claim C6 as stated fails at the married couple \<open>A\<close>, \<open>B\<close>: each occurs twice, not
  once, in the other's neighbour list.
\<close>

theorem spouse_edge_not_single:
  "neighbors (buildAdjacency marriedCouple) ''A'' = [''B'', ''B'']
   \<and> neighbors (buildAdjacency marriedCouple) ''B'' = [''A'', ''A'']
   \<and> count_list (neighbors (buildAdjacency marriedCouple) ''A'') ''B'' \<noteq> 1
   \<and> count_list (neighbors (buildAdjacency marriedCouple) ''B'') ''A'' \<noteq> 1"
  by (simp add: neighbors_buildAdjacency marriedCouple_def examplePerson_def edgesOf_def
      hasParent_def SPOUSE_def)

section \<open>The nodes that the first two passes build\<close>

lemma personMap_Cons:
  "personMap (p # ps) k =
     (case personMap ps k of Some q \<Rightarrow> Some q | None \<Rightarrow> if idP p = k then Some p else None)"
  by (simp add: personMap_def map_add_def split: option.splits)

lemma personMap_None: "personMap ps k = None \<longleftrightarrow> k \<notin> set (ids ps)"
  by (simp add: personMap_def map_of_eq_None_iff ids_def image_image)

lemma personMap_distinct:
  assumes "distinct (ids ps)"
  shows "personMap ps k = getPerson k ps"
proof (cases "personMap ps k")
  case None
  then have "k \<notin> set (ids ps)" by (simp add: personMap_None)
  then have "getPerson k ps = None" by (simp add: getPerson_None)
  with None show ?thesis by simp
next
  case (Some p)
  then have "p \<in> set ps" "idP p = k" by (simp_all add: personMap_Some)
  with getPerson_member [OF assms, of p] Some show ?thesis by simp
qed

text \<open>The children that the rows \<open>qs\<close> append to the node with key \<open>k\<close>.\<close>

definition kidsOf :: "store \<Rightarrow> pid \<Rightarrow> pid list" where
  "kidsOf qs k = map idP (filter (\<lambda>q. parentId q = Some k \<and> hasParent (Some k)) qs)"

lemma createNode_lookup:
  "map_of (fst (fold createNode ps (pm, c))) k =
     (case personMap ps k of
        Some p \<Rightarrow> Some \<lparr>row = p, children = [], spouse = None\<rparr>
      | None \<Rightarrow> map_of pm k)"
proof (induction ps arbitrary: pm c)
  case Nil
  then show ?case by (simp add: personMap_def)
next
  case (Cons p ps)
  show ?case
    by (simp add: Cons.IH personMap_Cons update_conv' split: option.splits)
qed

lemma createNode_childIds:
  "snd (fold createNode ps (pm, c)) = c \<union> idP ` {p \<in> set ps. hasParent (parentId p)}"
  by (induction ps arbitrary: pm c) auto

lemma childIdsOf_eq: "childIdsOf ps = idP ` {p \<in> set ps. hasParent (parentId p)}"
  by (simp add: childIdsOf_def createNode_childIds)

lemma keys_map_entry: "map fst (AList.map_entry k f xs) = map fst xs"
  by (induction xs) simp_all

lemma keys_linkNode: "map fst (linkNode p pm) = map fst pm"
  by (simp add: linkNode_def linkParent_def linkSpouse_def keys_map_entry split: option.splits)

lemma keys_fold_linkNode: "map fst (fold linkNode qs pm) = map fst pm"
  by (induction qs arbitrary: pm) (simp_all add: keys_linkNode)

lemma map_entry_lookup:
  "map_of (AList.map_entry k f pm) j = (if j = k then map_option f (map_of pm j) else map_of pm j)"
  by (simp add: map_of_map_entry split: option.splits)

lemma row_linkSpouse: "map_option row (map_of (linkSpouse p pm) k) = map_option row (map_of pm k)"
  by (simp add: linkSpouse_def map_entry_lookup option.map_comp comp_def split: option.splits)

lemma children_linkSpouse:
  "map_option children (map_of (linkSpouse p pm) k) = map_option children (map_of pm k)"
  by (simp add: linkSpouse_def map_entry_lookup option.map_comp comp_def split: option.splits)

lemma row_linkParent: "map_option row (map_of (linkParent p pm) k) = map_option row (map_of pm k)"
  by (simp add: linkParent_def map_entry_lookup option.map_comp comp_def split: option.splits)

lemma children_linkParent:
  "map_option children (map_of (linkParent p pm) k) =
     map_option (\<lambda>n. children n @ kidsOf [p] k) (map_of pm k)"
proof (cases "parentId p = Some k \<and> hasParent (Some k)")
  case True
  then show ?thesis
    by (cases "map_of pm k")
       (simp_all add: linkParent_def map_entry_lookup kidsOf_def option.map_comp comp_def)
next
  case False
  then have "kidsOf [p] k = []" by (simp add: kidsOf_def)
  moreover from False
  have "map_option children (map_of (linkParent p pm) k) = map_option children (map_of pm k)"
    by (auto simp: linkParent_def map_entry_lookup split: option.splits)
  ultimately show ?thesis by (simp add: option.map_ident cong: option.map_cong)
qed

lemma row_linkNode:
  "map_option row (map_of (linkNode p pm) k) = map_option row (map_of pm k)"
  by (simp add: linkNode_def row_linkParent row_linkSpouse)

lemma children_linkNode:
  "map_option children (map_of (linkNode p pm) k) =
     map_option (\<lambda>n. children n @ kidsOf [p] k) (map_of pm k)"
proof (cases "map_of pm k")
  case None
  with children_linkSpouse [of p pm k] have "map_of (linkSpouse p pm) k = None" by simp
  with None show ?thesis by (simp add: linkNode_def children_linkParent)
next
  case (Some n)
  with children_linkSpouse [of p pm k] obtain n'
    where "map_of (linkSpouse p pm) k = Some n'" "children n' = children n"
    by (cases "map_of (linkSpouse p pm) k") simp_all
  with Some show ?thesis by (simp add: linkNode_def children_linkParent)
qed

lemma row_fold_linkNode:
  "map_option row (map_of (fold linkNode qs pm) k) = map_option row (map_of pm k)"
  by (induction qs arbitrary: pm) (simp_all add: row_linkNode)

lemma children_fold_linkNode:
  "map_option children (map_of (fold linkNode qs pm) k) =
     map_option (\<lambda>n. children n @ kidsOf qs k) (map_of pm k)"
proof (induction qs arbitrary: pm)
  case Nil
  then show ?case by (simp add: kidsOf_def)
next
  case (Cons q qs)
  have k: "kidsOf (q # qs) k = kidsOf [q] k @ kidsOf qs k" by (simp add: kidsOf_def)
  note c = children_linkNode [of q pm k]
  show ?case
  proof (cases "map_of pm k")
    case None
    with c have "map_of (linkNode q pm) k = None" by simp
    with None show ?thesis by (simp add: Cons.IH)
  next
    case (Some n)
    with c obtain n' where n': "map_of (linkNode q pm) k = Some n'"
      and "children n' = children n @ kidsOf [q] k"
      by (cases "map_of (linkNode q pm) k") simp_all
    with Some k show ?thesis by (simp add: Cons.IH)
  qed
qed

lemma buildNodes_row: "map_option row (map_of (buildNodes ps) k) = personMap ps k"
  by (simp add: buildNodes_def row_fold_linkNode createNode_lookup split: option.splits)

lemma buildNodes_children:
  "map_option children (map_of (buildNodes ps) k) = map_option (\<lambda>p. kidsOf ps k) (personMap ps k)"
  by (simp add: buildNodes_def children_fold_linkNode createNode_lookup split: option.splits)

lemma buildNodes_node:
  assumes "map_of (buildNodes ps) k = Some n"
  shows "personMap ps k = Some (row n)" and "children n = kidsOf ps k"
proof -
  from buildNodes_row [of ps k] assms show r: "personMap ps k = Some (row n)" by simp
  from buildNodes_children [of ps k] assms r show "children n = kidsOf ps k" by simp
qed

lemma buildNodes_has:
  assumes "k \<in> set (ids ps)"
  shows "\<exists>n. map_of (buildNodes ps) k = Some n"
proof -
  from assms have "personMap ps k \<noteq> None" by (simp add: personMap_None)
  with buildNodes_row [of ps k] show ?thesis by (cases "map_of (buildNodes ps) k") simp_all
qed

lemma buildNodes_missing:
  assumes "k \<notin> set (ids ps)"
  shows "map_of (buildNodes ps) k = None"
proof -
  from assms have "personMap ps k = None" by (simp add: personMap_None)
  with buildNodes_row [of ps k] show ?thesis by simp
qed

lemma keys_update_hd:
  "pm \<noteq> [] \<Longrightarrow> AList.update k v pm \<noteq> [] \<and> fst (hd (AList.update k v pm)) = fst (hd pm)"
  by (cases pm) auto

lemma keys_createNode_hd:
  "pm \<noteq> [] \<Longrightarrow> fst (fold createNode ps (pm, c)) \<noteq> []
     \<and> fst (hd (fst (fold createNode ps (pm, c)))) = fst (hd pm)"
proof (induction ps arbitrary: pm c)
  case Nil
  then show ?case by simp
next
  case (Cons p ps)
  let ?pm = "AList.update (idP p) \<lparr>row = p, children = [], spouse = None\<rparr> pm"
  from keys_update_hd [OF Cons.prems] have "?pm \<noteq> []" "fst (hd ?pm) = fst (hd pm)" by simp_all
  with Cons.IH [of ?pm] show ?case by simp
qed

lemma buildNodes_first:
  assumes "ps \<noteq> []"
  shows "\<exists>n rest. buildNodes ps = (idP (hd ps), n) # rest"
proof -
  from assms obtain p qs where ps: "ps = p # qs" by (cases ps) simp_all
  let ?pm0 = "[(idP p, \<lparr>row = p, children = [], spouse = None\<rparr>)]"
  let ?c0 = "if hasParent (parentId p) then {idP p} else {}"
  have f: "fold createNode ps ([], {}) = fold createNode qs (?pm0, ?c0)"
    by (simp add: ps)
  from keys_createNode_hd [of ?pm0 qs ?c0]
  have "map fst (fst (fold createNode ps ([], {}))) \<noteq> []"
    and "hd (map fst (fst (fold createNode ps ([], {})))) = idP p"
    by (simp_all add: f hd_map)
  then have "map fst (buildNodes ps) \<noteq> []" "hd (map fst (buildNodes ps)) = idP p"
    by (simp_all add: buildNodes_def keys_fold_linkNode)
  then show ?thesis by (cases "buildNodes ps") (auto simp: ps)
qed

section \<open>Picking the root\<close>

lemma getFamilyTree_empty: "getFamilyTree fuel rootId [] = Some (Inl NoPersonsFound)"
  by (simp add: getFamilyTree_def)

lemma getFamilyTree_rootId:
  assumes "ps \<noteq> []" and "i \<noteq> []"
  shows "getFamilyTree fuel (Some i) ps =
           (case map_of (buildNodes ps) i of
              None \<Rightarrow> Some (Inl (PersonWithIdNotFound i))
            | Some n \<Rightarrow> Some (Inr \<lparr>root = n, treeNodes = buildNodes ps\<rparr>))"
  using assms by (simp add: getFamilyTree_def Let_def)

lemma getFamilyTree_no_rootId:
  assumes "ps \<noteq> []" and "\<not> truthy rootId"
  shows "getFamilyTree fuel rootId ps = inferRoot fuel (buildNodes ps) (potentialRoots ps)"
  using assms by (cases rootId) (simp_all add: getFamilyTree_def Let_def)

text \<open>A table whose two records are each other's parent: there is no potential root.\<close>

definition parentCycle :: store where
  "parentCycle =
     [examplePerson ''A'' (Some ''B'') None,
      examplePerson ''B'' (Some ''A'') None]"

text \<open>
  Claim C7 as the code has it. In a table that has records, an explicit non-empty
  \<open>rootId\<close> that matches none of them fails with the error that the person with this id
  was not found. On an empty table every call fails with the error that no persons were
  found, whether a \<open>rootId\<close> is given or not. With no \<open>rootId\<close> (absent, or the empty
  string), a non-empty table and no potential root, the call returns the node of an
  existing record: the one with the id of the first row.
\<close>

theorem getFamilyTree_errors:
  "(ps \<noteq> [] \<and> i \<noteq> [] \<and> i \<notin> set (ids ps) \<longrightarrow>
      getFamilyTree fuel (Some i) ps = Some (Inl (PersonWithIdNotFound i)))
   \<and> getFamilyTree fuel rootId [] = Some (Inl NoPersonsFound)
   \<and> (ps \<noteq> [] \<and> \<not> truthy rootId \<and> potentialRoots ps = [] \<longrightarrow>
        (\<exists>t. getFamilyTree fuel rootId ps = Some (Inr t)
           \<and> row (root t) \<in> set ps \<and> idP (row (root t)) = idP (hd ps)))"
proof (intro conjI impI)
  assume a: "ps \<noteq> [] \<and> i \<noteq> [] \<and> i \<notin> set (ids ps)"
  then have "map_of (buildNodes ps) i = None" by (simp add: buildNodes_missing)
  with a show "getFamilyTree fuel (Some i) ps = Some (Inl (PersonWithIdNotFound i))"
    by (simp add: getFamilyTree_rootId)
next
  show "getFamilyTree fuel rootId [] = Some (Inl NoPersonsFound)"
    by (rule getFamilyTree_empty)
next
  assume a: "ps \<noteq> [] \<and> \<not> truthy rootId \<and> potentialRoots ps = []"
  then obtain n rest where pm: "buildNodes ps = (idP (hd ps), n) # rest"
    using buildNodes_first by blast
  then have "map_of (buildNodes ps) (idP (hd ps)) = Some n" by simp
  from buildNodes_node(1) [OF this] have "personMap ps (idP (hd ps)) = Some (row n)" .
  then have "row n \<in> set ps" "idP (row n) = idP (hd ps)" by (simp_all add: personMap_Some)
  moreover from a pm
  have "getFamilyTree fuel rootId ps = Some (Inr \<lparr>root = n, treeNodes = buildNodes ps\<rparr>)"
    by (simp add: getFamilyTree_no_rootId inferRoot_def)
  ultimately show "\<exists>t. getFamilyTree fuel rootId ps = Some (Inr t)
           \<and> row (root t) \<in> set ps \<and> idP (row (root t)) = idP (hd ps)"
    by simp
qed

lemma parentCycle_no_roots: "potentialRoots parentCycle = []"
  by (simp add: potentialRoots_def childIdsOf_def parentCycle_def examplePerson_def
      hasParent_def SPOUSE_def)

theorem getFamilyTree_errors_witness:
  "getFamilyTree 0 (Some ''ghost'') marriedCouple = Some (Inl (PersonWithIdNotFound ''ghost''))
   \<and> getFamilyTree 0 None [] = Some (Inl NoPersonsFound)
   \<and> potentialRoots parentCycle = []
   \<and> (\<exists>t. getFamilyTree 0 None parentCycle = Some (Inr t) \<and> idP (row (root t)) = ''A'')"
proof -
  have m: "marriedCouple \<noteq> [] \<and> ''ghost'' \<noteq> [] \<and> ''ghost'' \<notin> set (ids marriedCouple)"
    by (simp add: marriedCouple_def examplePerson_def ids_def)
  have c: "parentCycle \<noteq> [] \<and> \<not> truthy None \<and> potentialRoots parentCycle = []"
    by (simp add: parentCycle_no_roots) (simp add: parentCycle_def)
  have h: "idP (hd parentCycle) = ''A''"
    by (simp add: parentCycle_def examplePerson_def)
  from getFamilyTree_errors [of marriedCouple "''ghost''" 0 None] m
  have 1: "getFamilyTree 0 (Some ''ghost'') marriedCouple
             = Some (Inl (PersonWithIdNotFound ''ghost''))"
    and 2: "getFamilyTree 0 None [] = Some (Inl NoPersonsFound)"
    by blast+
  from getFamilyTree_errors [of parentCycle "''ghost''" 0 None] c h
  have 3: "\<exists>t. getFamilyTree 0 None parentCycle = Some (Inr t) \<and> idP (row (root t)) = ''A''"
    by auto
  from 1 2 3 c show ?thesis by blast
qed

text \<open>
  Claim C7 as stated fails on the empty table: an explicit \<open>rootId\<close> that matches no
  record gets the error of the empty table, not the not-found error.
\<close>

theorem getFamilyTree_rootId_empty_table:
  "getFamilyTree 0 (Some ''ghost'') [] = Some (Inl NoPersonsFound)
   \<and> getFamilyTree 0 (Some ''ghost'') [] \<noteq> Some (Inl (PersonWithIdNotFound ''ghost''))"
  by (simp add: getFamilyTree_def)

section \<open>The tables the server can hold\<close>

text \<open>
  The table after \<^verbatim>\<open>initializeDatabase\<close>: the two seeded rows, of which only the first
  gets a link. (The names, Persian in the source, are transliterated.)
\<close>

definition initialFamilyData :: store where
  "initialFamilyData =
     [\<lparr>name = ''Jahangir Eskandari'', gender = Male, birthDate = ''1880-03-15'',
       deathDate = Some ''1955-06-20'',
       photoUrl = Some ''https://picsum.photos/id/1027/200/200'',
       bio = Some ''Matriarch of the Vance family...'', location = Some ''London, UK'',
       idP = ''1'', parentId = None, spouseId = Some ''s1''\<rparr>,
      \<lparr>name = ''Fatemeh Eskandari'', gender = Female, birthDate = ''1885-07-22'',
       deathDate = Some ''1960-11-30'',
       photoUrl = Some ''https://picsum.photos/id/1025/200/200'',
       bio = Some ''Wife of Jahangir Eskandari...'', location = Some ''London, UK'',
       idP = ''s1'', parentId = None, spouseId = None\<rparr>]"

text \<open>Every table that the three mutations can produce from the seeded one.\<close>

inductive reachable :: "store \<Rightarrow> bool" where
  seeded: "reachable initialFamilyData"
| added: "reachable ps \<Longrightarrow> addPerson stamp d rel relativeToId ps = Inr (r, ps')
            \<Longrightarrow> reachable ps'"
| updated: "reachable ps \<Longrightarrow> updatePerson i d sp ps = Inr (r, ps') \<Longrightarrow> reachable ps'"
| deleted: "reachable ps \<Longrightarrow> deletePerson i ps = Inr (n, ps') \<Longrightarrow> reachable ps'"

text \<open>An id that can be a parent: not empty and not the sentinel.\<close>

definition properIds :: "store \<Rightarrow> bool" where
  "properIds ps = (distinct (ids ps) \<and> (\<forall>i \<in> set (ids ps). i \<noteq> [] \<and> i \<noteq> SPOUSE))"

lemma addPerson_ids:
  assumes "addPerson stamp d rel relativeToId ps = Inr (r, ps')"
  shows "newPersonId stamp \<notin> set (ids ps)" and "ids ps' = ids ps @ [newPersonId stamp]"
proof -
  show fresh: "newPersonId stamp \<notin> set (ids ps)"
    using assms by (auto simp: addPerson_def insertPerson_def Let_def split: if_splits)
  let ?ps1 = "ps @ [\<lparr>name = name d, gender = gender d, birthDate = birthDate d,
                      deathDate = deathDate d, photoUrl = photoUrl d, bio = bio d,
                      location = location d, idP = newPersonId stamp,
                      parentId = None, spouseId = None\<rparr>]"
  have i1: "ids ?ps1 = ids ps @ [newPersonId stamp]" by (simp add: ids_def)
  from fresh assms have "ids ps' = ids ?ps1"
    by (cases rel)
       (auto simp: addPerson_def insertPerson_def Let_def split: option.splits if_splits)
  with i1 show "ids ps' = ids ps @ [newPersonId stamp]" by simp
qed

lemma newPersonId_proper: "newPersonId stamp \<noteq> [] \<and> newPersonId stamp \<noteq> SPOUSE"
  by (simp add: newPersonId_def SPOUSE_def)

lemma reachable_properIds: "reachable ps \<Longrightarrow> properIds ps"
proof (induction rule: reachable.induct)
  case seeded
  show ?case by (simp add: properIds_def initialFamilyData_def ids_def SPOUSE_def)
next
  case (added ps stamp d rel relativeToId r ps')
  from addPerson_ids [OF added.hyps(2)] added.IH newPersonId_proper [of stamp]
  show ?case by (auto simp: properIds_def)
next
  case (updated ps i d sp r ps')
  from updatePerson_returns [of i d sp ps] updated.hyps(2) have "ids ps' = ids ps" by auto
  with updated.IH show ?case by (simp add: properIds_def)
next
  case (deleted ps i n ps')
  from deleted.hyps(2) obtain p where p: "getPerson i ps = Some p"
    by (cases "getPerson i ps") (simp_all add: deletePerson_def)
  from deletePerson_result [OF p] deleted.hyps(2)
  have "ids ps' = filter (\<lambda>j. j \<noteq> i) (ids ps)" by (simp add: ids_after_delete)
  with deleted.IH show ?case by (simp add: properIds_def)
qed

section \<open>Adding a child and fetching the tree\<close>

lemma getPerson_append:
  "getPerson i (ps @ qs) = (case getPerson i ps of Some p \<Rightarrow> Some p | None \<Rightarrow> getPerson i qs)"
  by (induction ps) (simp_all add: getPerson_def)

lemma addPerson_Child_result:
  assumes "addPerson stamp d Child anchor ps = Inr (r, ps')"
  shows "\<exists>new. idP new = newPersonId stamp \<and> parentId new = Some anchor
           \<and> personData.truncate new = d
           \<and> ps' = ps @ [new] \<and> r = Some new"
proof -
  let ?new = "newPersonId stamp"
  let ?row = "\<lparr>name = name d, gender = gender d, birthDate = birthDate d,
               deathDate = deathDate d, photoUrl = photoUrl d, bio = bio d,
               location = location d, idP = ?new, parentId = None, spouseId = None\<rparr>"
  let ?row' = "\<lparr>name = name d, gender = gender d, birthDate = birthDate d,
               deathDate = deathDate d, photoUrl = photoUrl d, bio = bio d,
               location = location d, idP = ?new, parentId = Some anchor, spouseId = None\<rparr>"
  from addPerson_ids(1) [OF assms] have fresh: "?new \<notin> set (ids ps)" .
  have "idP p \<noteq> ?new" if "p \<in> set ps" for p
  proof
    assume "idP p = ?new"
    with that have "?new \<in> idP ` set ps" by (metis imageI)
    with fresh show False by (simp add: ids_def)
  qed
  then have same: "setParentId (Some anchor) ?new ps = ps"
    by (simp add: setParentId_def map_idI)
  then have ps2: "setParentId (Some anchor) ?new (ps @ [?row]) = ps @ [?row']"
    by (simp add: setParentId_def)
  from fresh have "getPerson ?new ps = None" by (simp add: getPerson_None)
  then have g: "getPerson ?new (ps @ [?row']) = Some ?row'"
    by (simp add: getPerson_append) (simp add: getPerson_def)
  from fresh have "addPerson stamp d Child anchor ps = Inr (getPerson ?new (ps @ [?row']), ps @ [?row'])"
    by (simp add: addPerson_def insertPerson_def Let_def ps2)
  with assms g have "ps' = ps @ [?row']" and "r = Some ?row'"
    by simp_all
  then show ?thesis
    by (intro exI [of _ ?row']) (simp add: personData.truncate_def)
qed

text \<open>
  Claim C9. In every table the server can hold, after a child has been added to an
  existing anchor, the tree fetched with the anchor as \<open>rootId\<close> has the anchor's node
  as its root, and the root's children list contains the new person, whose node carries
  the record that \<open>addPerson\<close> returned.
\<close>

theorem addPerson_Child_in_tree:
  assumes "reachable ps" and "anchor \<in> set (ids ps)"
    and "addPerson stamp d Child anchor ps = Inr (r, ps')"
  shows "\<exists>t n. getFamilyTree fuel (Some anchor) ps' = Some (Inr t)
           \<and> idP (row (root t)) = anchor
           \<and> newPersonId stamp \<in> set (children (root t))
           \<and> map_of (treeNodes t) (newPersonId stamp) = Some n
           \<and> r = Some (row n)"
proof -
  let ?new = "newPersonId stamp"
  from reachable_properIds [OF assms(1)] assms(2)
  have anchor: "anchor \<noteq> []" "anchor \<noteq> SPOUSE" by (simp_all add: properIds_def)
  from addPerson_Child_result [OF assms(3)] obtain new
    where new: "idP new = ?new" "parentId new = Some anchor"
      and ps': "ps' = ps @ [new]" and r: "r = Some new"
    by blast
  from assms(2) ps' have a': "anchor \<in> set (ids ps')" by (simp add: ids_def)
  from buildNodes_has [OF this] obtain n where n: "map_of (buildNodes ps') anchor = Some n"
    by blast
  from buildNodes_node [OF n] have rn: "personMap ps' anchor = Some (row n)"
    and kids: "children n = kidsOf ps' anchor" by simp_all
  from rn have id: "idP (row n) = anchor" by (simp add: personMap_Some)
  from new anchor have "?new \<in> set (kidsOf ps' anchor)"
    by (simp add: kidsOf_def ps' hasParent_def)
  with kids have member: "?new \<in> set (children n)" by simp
  from new(1) ps' have "?new \<in> set (ids ps')" by (simp add: ids_def)
  from buildNodes_has [OF this] obtain m where m: "map_of (buildNodes ps') ?new = Some m"
    by blast
  have "personMap ps' ?new = Some new"
    by (simp add: ps' personMap_def new(1))
  with buildNodes_node(1) [OF m] have "row m = new" by simp
  with r have rm: "r = Some (row m)" by simp
  from ps' have "ps' \<noteq> []" by simp
  from getFamilyTree_rootId [OF this anchor(1), of fuel] n
  have "getFamilyTree fuel (Some anchor) ps' = Some (Inr \<lparr>root = n, treeNodes = buildNodes ps'\<rparr>)"
    by simp
  with id member m rm show ?thesis by simp
qed

theorem addPerson_Child_in_tree_witness:
  "reachable initialFamilyData \<and> ''1'' \<in> set (ids initialFamilyData)
   \<and> (\<exists>r ps'. addPerson ''7'' exampleData Child ''1'' initialFamilyData = Inr (r, ps')
        \<and> (\<exists>t. getFamilyTree 0 (Some ''1'') ps' = Some (Inr t)
              \<and> idP (row (root t)) = ''1''
              \<and> ''person-7'' \<in> set (children (root t))))"
proof -
  obtain r ps' where a: "addPerson ''7'' exampleData Child ''1'' initialFamilyData = Inr (r, ps')"
    by (simp add: addPerson_def insertPerson_def Let_def initialFamilyData_def ids_def
        newPersonId_def)
  have i: "''1'' \<in> set (ids initialFamilyData)"
    by (simp add: initialFamilyData_def ids_def)
  have n: "newPersonId ''7'' = ''person-7''" by (simp add: newPersonId_def)
  from addPerson_Child_in_tree [OF seeded i a, of 0] obtain t
    where "getFamilyTree 0 (Some ''1'') ps' = Some (Inr t)" "idP (row (root t)) = ''1''"
      "''person-7'' \<in> set (children (root t))"
    unfolding n by blast
  with a i seeded show ?thesis by blast
qed

section \<open>Descendant subtrees\<close>

text \<open>
  Following \<^verbatim>\<open>children\<close> once: \<open>(a, b)\<close> is in the relation when \<open>b\<close> is in the children
  list of the node \<open>a\<close>.
\<close>

definition childRel :: "nodeMap \<Rightarrow> (pid \<times> pid) set" where
  "childRel pm = {(a, b). \<exists>n. map_of pm a = Some n \<and> b \<in> set (children n)}"

text \<open>
  The descendant subtree of the glossary: a node plus all nodes reachable by repeatedly
  following \<^verbatim>\<open>children\<close>.
\<close>

definition descendants :: "nodeMap \<Rightarrow> pid \<Rightarrow> pid set" where
  "descendants pm c = (childRel pm)\<^sup>* `` {c}"

text \<open>No node is in the children lists of two nodes.\<close>

definition singleParent :: "('a \<times> 'a) set \<Rightarrow> bool" where
  "singleParent R = (\<forall>a b x. (a, x) \<in> R \<longrightarrow> (b, x) \<in> R \<longrightarrow> a = b)"

lemma singleParentD: "singleParent R \<Longrightarrow> (a, x) \<in> R \<Longrightarrow> (b, x) \<in> R \<Longrightarrow> a = b"
  unfolding singleParent_def by blast

lemma cycle_ancestors:
  assumes sp: "singleParent R" and cyc: "(x, x) \<in> R\<^sup>+" and a: "(a, x) \<in> R\<^sup>*"
  shows "(x, a) \<in> R\<^sup>*"
  using a
proof (induction rule: converse_rtrancl_induct)
  case base
  show ?case by simp
next
  case (step a a')
  from step.IH cyc have "(x, a') \<in> R\<^sup>+"
    by (auto simp: rtrancl_eq_or_trancl)
  then obtain z where z: "(x, z) \<in> R\<^sup>*" "(z, a') \<in> R"
    by (blast dest: tranclD2)
  from singleParentD [OF sp z(2) step.hyps(1)] z(1) show ?case by simp
qed

lemma no_cycle_below_root:
  assumes sp: "singleParent R" and root: "\<And>a. (a, c) \<notin> R" and cx: "(c, x) \<in> R\<^sup>*"
  shows "(x, x) \<notin> R\<^sup>+"
proof
  assume cyc: "(x, x) \<in> R\<^sup>+"
  from cycle_ancestors [OF sp cyc cx] cyc have "(x, c) \<in> R\<^sup>+"
    by (auto simp: rtrancl_eq_or_trancl)
  then obtain z where "(z, c) \<in> R" by (blast dest: tranclD2)
  with root show False by simp
qed

lemma ancestors_chain:
  assumes sp: "singleParent R" and b: "(b, y) \<in> R\<^sup>*" and a: "(a, y) \<in> R\<^sup>*"
  shows "(a, b) \<in> R\<^sup>* \<or> (b, a) \<in> R\<^sup>*"
  using b a
proof (induction arbitrary: a rule: rtrancl_induct)
  case base
  then show ?case by simp
next
  case (step y z)
  show ?case
  proof (cases "a = z")
    case True
    with step.hyps have "(b, a) \<in> R\<^sup>*" by simp
    then show ?thesis ..
  next
    case False
    with step.prems have "(a, z) \<in> R\<^sup>+" by (simp add: rtrancl_eq_or_trancl)
    then obtain w where w: "(a, w) \<in> R\<^sup>*" "(w, z) \<in> R" by (blast dest: tranclD2)
    from singleParentD [OF sp w(2) step.hyps(2)] w(1) have "(a, y) \<in> R\<^sup>*" by simp
    then show ?thesis by (rule step.IH)
  qed
qed

lemma siblings_disjoint:
  assumes sp: "singleParent R" and acyc: "(x, x) \<notin> R\<^sup>+"
    and k1: "(x, k1) \<in> R" and k2: "(x, k2) \<in> R" and ne: "k1 \<noteq> k2"
  shows "R\<^sup>* `` {k1} \<inter> R\<^sup>* `` {k2} = {}"
proof -
  have aux: False if kk: "(k, k') \<in> R\<^sup>*" and k: "(x, k) \<in> R" and k': "(x, k') \<in> R"
    and n: "k \<noteq> k'" for k k'
  proof -
    from kk n have "(k, k') \<in> R\<^sup>+" by (simp add: rtrancl_eq_or_trancl)
    then obtain z where z: "(k, z) \<in> R\<^sup>*" "(z, k') \<in> R" by (blast dest: tranclD2)
    from singleParentD [OF sp z(2) k'] z(1) have "(k, x) \<in> R\<^sup>*" by simp
    with k have "(x, x) \<in> R\<^sup>+" by (rule rtrancl_into_trancl2)
    with acyc show False ..
  qed
  have False if "(k1, y) \<in> R\<^sup>*" "(k2, y) \<in> R\<^sup>*" for y
  proof -
    from ancestors_chain [OF sp that] have "(k2, k1) \<in> R\<^sup>* \<or> (k1, k2) \<in> R\<^sup>*" .
    then show False
    proof
      assume "(k2, k1) \<in> R\<^sup>*"
      from aux [OF this k2 k1] ne show False by simp
    next
      assume "(k1, k2) \<in> R\<^sup>*"
      from aux [OF this k1 k2] ne show False by simp
    qed
  qed
  then show ?thesis by blast
qed

lemma descendants_unfold: "R\<^sup>* `` {x} = insert x (\<Union>k \<in> {k. (x, k) \<in> R}. R\<^sup>* `` {k})"
proof (intro set_eqI iffI)
  fix y
  assume "y \<in> R\<^sup>* `` {x}"
  then have "(x, y) \<in> R\<^sup>*" by simp
  then show "y \<in> insert x (\<Union>k \<in> {k. (x, k) \<in> R}. R\<^sup>* `` {k})"
    by (cases rule: converse_rtranclE) auto
next
  fix y
  assume "y \<in> insert x (\<Union>k \<in> {k. (x, k) \<in> R}. R\<^sup>* `` {k})"
  then show "y \<in> R\<^sup>* `` {x}"
    by (auto intro: converse_rtrancl_into_rtrancl)
qed

lemma card_subtree:
  assumes sp: "singleParent R" and acyc: "(x, x) \<notin> R\<^sup>+"
    and fin: "finite (R\<^sup>* `` {x})"
    and ks: "set ks = {k. (x, k) \<in> R}" and d: "distinct ks"
  shows "card (R\<^sup>* `` {x}) = 1 + sum_list (map (\<lambda>k. card (R\<^sup>* `` {k})) ks)"
proof -
  let ?U = "\<Union>k \<in> set ks. R\<^sup>* `` {k}"
  have un: "R\<^sup>* `` {x} = insert x ?U"
    using descendants_unfold [of R x] ks by simp
  with fin have finU: "finite ?U" by simp
  have "x \<notin> R\<^sup>* `` {k}" if "k \<in> set ks" for k
  proof
    assume "x \<in> R\<^sup>* `` {k}"
    then have "(k, x) \<in> R\<^sup>*" by simp
    moreover from that ks have "(x, k) \<in> R" by simp
    ultimately have "(x, x) \<in> R\<^sup>+" by (rule rtrancl_into_trancl2 [rotated])
    with acyc show False ..
  qed
  then have xU: "x \<notin> ?U" by blast
  have each: "\<forall>k \<in> set ks. finite (R\<^sup>* `` {k})"
    using finU by (auto intro: finite_subset)
  have disj: "\<forall>i \<in> set ks. \<forall>j \<in> set ks. i \<noteq> j \<longrightarrow> R\<^sup>* `` {i} \<inter> R\<^sup>* `` {j} = {}"
    using ks siblings_disjoint [OF sp acyc] by simp
  have "card ?U = (\<Sum>k \<in> set ks. card (R\<^sup>* `` {k}))"
    by (rule card_UN_disjoint [OF _ each disj]) simp
  also have "\<dots> = sum_list (map (\<lambda>k. card (R\<^sup>* `` {k})) ks)"
    using d by (rule sum_list_distinct_conv_sum_set [symmetric])
  finally have "card ?U = sum_list (map (\<lambda>k. card (R\<^sup>* `` {k})) ks)" .
  with un xU finU show ?thesis by simp
qed


section \<open>The children relation of the reconstructed nodes\<close>

lemma kidsOf_iff:
  "b \<in> set (kidsOf ps a) \<longleftrightarrow>
     (\<exists>q \<in> set ps. idP q = b \<and> parentId q = Some a \<and> hasParent (Some a))"
  by (auto simp: kidsOf_def)

lemma childRel_buildNodes:
  "(a, b) \<in> childRel (buildNodes ps) \<longleftrightarrow> a \<in> set (ids ps) \<and> b \<in> set (kidsOf ps a)"
proof
  assume "(a, b) \<in> childRel (buildNodes ps)"
  then obtain n where n: "map_of (buildNodes ps) a = Some n" and b: "b \<in> set (children n)"
    by (auto simp: childRel_def)
  from buildNodes_node [OF n] b have "personMap ps a \<noteq> None" "b \<in> set (kidsOf ps a)"
    by simp_all
  then show "a \<in> set (ids ps) \<and> b \<in> set (kidsOf ps a)" by (simp add: personMap_None)
next
  assume r: "a \<in> set (ids ps) \<and> b \<in> set (kidsOf ps a)"
  then obtain n where n: "map_of (buildNodes ps) a = Some n"
    using buildNodes_has by blast
  with buildNodes_node(2) [OF n] r show "(a, b) \<in> childRel (buildNodes ps)"
    by (auto simp: childRel_def)
qed

lemma childRel_child_id: "(a, b) \<in> childRel (buildNodes ps) \<Longrightarrow> b \<in> set (ids ps)"
  by (auto simp: childRel_buildNodes kidsOf_iff ids_def)

lemma distinct_ids_inj:
  "distinct (ids ps) \<Longrightarrow> p \<in> set ps \<Longrightarrow> q \<in> set ps \<Longrightarrow> idP p = idP q \<Longrightarrow> p = q"
  by (auto simp: ids_def distinct_map dest: inj_onD)

lemma singleParent_buildNodes:
  assumes "distinct (ids ps)"
  shows "singleParent (childRel (buildNodes ps))"
  unfolding singleParent_def
proof (intro allI impI)
  fix a b x
  assume "(a, x) \<in> childRel (buildNodes ps)" and "(b, x) \<in> childRel (buildNodes ps)"
  then obtain p q where p: "p \<in> set ps" "idP p = x" "parentId p = Some a"
    and q: "q \<in> set ps" "idP q = x" "parentId q = Some b"
    by (auto simp: childRel_buildNodes kidsOf_iff)
  from distinct_ids_inj [OF assms p(1) q(1)] p(2) q(2) have "p = q" by simp
  with p(3) q(3) show "a = b" by simp
qed

lemma potentialRoot_no_parent:
  assumes "c \<in> set (potentialRoots ps)"
  shows "(a, c) \<notin> childRel (buildNodes ps)"
proof
  assume "(a, c) \<in> childRel (buildNodes ps)"
  then obtain q where "q \<in> set ps" "idP q = c" "hasParent (parentId q)"
    by (auto simp: childRel_buildNodes kidsOf_iff)
  then have "c \<in> childIdsOf ps" by (auto simp: childIdsOf_eq)
  with assms show False by (auto simp: potentialRoots_def)
qed

lemma potentialRoot_id: "c \<in> set (potentialRoots ps) \<Longrightarrow> c \<in> set (ids ps)"
  by (auto simp: potentialRoots_def ids_def)

lemma descendants_ids:
  assumes "x \<in> set (ids ps)"
  shows "descendants (buildNodes ps) x \<subseteq> set (ids ps)"
proof
  fix y
  assume "y \<in> descendants (buildNodes ps) x"
  then have "(x, y) \<in> (childRel (buildNodes ps))\<^sup>*" by (simp add: descendants_def)
  then show "y \<in> set (ids ps)"
    using assms by (induction rule: rtrancl_induct) (simp_all add: childRel_child_id)
qed

lemma children_of_node:
  assumes "map_of pm x = Some n"
  shows "set (children n) = {k. (x, k) \<in> childRel pm}"
  using assms by (auto simp: childRel_def)

lemma distinct_kidsOf: "distinct (ids ps) \<Longrightarrow> distinct (kidsOf ps a)"
  unfolding kidsOf_def ids_def by (rule distinct_map_filter)

text \<open>The loop inside \<open>countNodes\<close> adds up the counts of the children.\<close>

lemma sum_children:
  assumes "\<forall>k \<in> set ks. countNodes fuel pm k = Some (g k)"
  shows "fold (\<lambda>child sum.
                 case sum of
                   None \<Rightarrow> None
                 | Some s \<Rightarrow> map_option (\<lambda>c. s + c) (countNodes fuel pm child))
              ks (Some a)
           = Some (a + sum_list (map g ks))"
  using assms by (induction ks arbitrary: a) (simp_all add: add.assoc)

text \<open>
  Below a potential root, \<open>countNodes\<close> returns the size of the descendant subtree as
  soon as the fuel is at least that size.
\<close>

lemma countNodes_descendants:
  assumes d: "distinct (ids ps)" and c: "c \<in> set (potentialRoots ps)"
  shows "(c, x) \<in> (childRel (buildNodes ps))\<^sup>* \<Longrightarrow> card (descendants (buildNodes ps) x) \<le> fuel
           \<Longrightarrow> countNodes fuel (buildNodes ps) x = Some (card (descendants (buildNodes ps) x))"
proof (induction fuel arbitrary: x)
  case 0
  let ?R = "childRel (buildNodes ps)"
  from "0.prems"(1) potentialRoot_id [OF c] have "x \<in> descendants (buildNodes ps) c"
    by (simp add: descendants_def)
  with descendants_ids [OF potentialRoot_id [OF c]] have x: "x \<in> set (ids ps)" by blast
  from descendants_ids [OF x] have "finite (descendants (buildNodes ps) x)"
    by (rule finite_subset) simp
  moreover have "x \<in> descendants (buildNodes ps) x" by (simp add: descendants_def)
  ultimately have "card (descendants (buildNodes ps) x) \<noteq> 0" by auto
  with "0.prems"(2) show ?case by simp
next
  case (Suc fuel)
  let ?pm = "buildNodes ps"
  let ?R = "childRel ?pm"
  let ?D = "\<lambda>k. card (descendants ?pm k)"
  note sp = singleParent_buildNodes [OF d]
  from Suc.prems(1) have "x \<in> descendants ?pm c" by (simp add: descendants_def)
  with descendants_ids [OF potentialRoot_id [OF c]] have x: "x \<in> set (ids ps)" by blast
  from descendants_ids [OF x] have fin: "finite (?R\<^sup>* `` {x})"
    unfolding descendants_def by (rule finite_subset) simp
  from no_cycle_below_root [OF sp potentialRoot_no_parent [OF c] Suc.prems(1)]
  have acyc: "(x, x) \<notin> ?R\<^sup>+" .
  from buildNodes_has [OF x] obtain n where n: "map_of ?pm x = Some n" by blast
  from buildNodes_node(2) [OF n] d have dk: "distinct (children n)"
    by (simp add: distinct_kidsOf)
  from card_subtree [OF sp acyc fin children_of_node [OF n] dk]
  have size: "?D x = 1 + sum_list (map ?D (children n))"
    by (simp add: descendants_def)
  have kids: "countNodes fuel ?pm k = Some (?D k)" if k: "k \<in> set (children n)" for k
  proof -
    from k children_of_node [OF n] have "(x, k) \<in> ?R" by simp
    with Suc.prems(1) have ck: "(c, k) \<in> ?R\<^sup>*" by simp
    from k have "?D k \<le> sum_list (map ?D (children n))"
      by (intro member_le_sum_list) simp_all
    with size Suc.prems(2) have "?D k \<le> fuel" by simp
    with ck show ?thesis by (rule Suc.IH)
  qed
  then have "\<forall>k \<in> set (children n). countNodes fuel ?pm k = Some (?D k)" by simp
  from sum_children [OF this, of 0] n size show ?case by simp
qed

lemma countNodes_potentialRoot:
  assumes d: "distinct (ids ps)" and c: "c \<in> set (potentialRoots ps)" and f: "length ps \<le> fuel"
  shows "countNodes fuel (buildNodes ps) c = Some (card (descendants (buildNodes ps) c))"
proof -
  have "card (descendants (buildNodes ps) c) \<le> card (set (ids ps))"
    by (intro card_mono descendants_ids potentialRoot_id [OF c]) simp
  also have "\<dots> \<le> length (ids ps)" by (rule card_length)
  finally have "card (descendants (buildNodes ps) c) \<le> fuel"
    using f by (simp add: ids_def)
  with countNodes_descendants [OF d c, of c fuel] show ?thesis by simp
qed

section \<open>The largest fragment\<close>

text \<open>
  The loop over the potential roots keeps the first root whose count is strictly larger
  than everything before it and not smaller than anything after it.
\<close>

lemma pickLargest_first_max:
  assumes "\<forall>c \<in> set cs. countNodes fuel pm c = Some (g c)"
  shows "(pickLargest fuel pm cs (mx, r) = Some (mx, r) \<and> (\<forall>c \<in> set cs. g c \<le> mx))
         \<or> (\<exists>pre w post. cs = pre @ w # post
               \<and> pickLargest fuel pm cs (mx, r) = Some (g w, Some w)
               \<and> mx < g w
               \<and> (\<forall>c \<in> set pre. g c < g w) \<and> (\<forall>c \<in> set post. g c \<le> g w))"
  using assms
proof (induction cs arbitrary: mx r)
  case Nil
  then show ?case by simp
next
  case (Cons c cs)
  from Cons.prems have c: "countNodes fuel pm c = Some (g c)"
    and rest: "\<forall>c \<in> set cs. countNodes fuel pm c = Some (g c)"
    by simp_all
  show ?case
  proof (cases "mx < g c")
    case True
    then have step: "pickLargest fuel pm (c # cs) (mx, r) = pickLargest fuel pm cs (g c, Some c)"
      using c by simp
    from Cons.IH [OF rest, of "g c" "Some c"] show ?thesis
    proof
      assume "pickLargest fuel pm cs (g c, Some c) = Some (g c, Some c)
                \<and> (\<forall>c' \<in> set cs. g c' \<le> g c)"
      with step True have "c # cs = [] @ c # cs
               \<and> pickLargest fuel pm (c # cs) (mx, r) = Some (g c, Some c)
               \<and> mx < g c
               \<and> (\<forall>c' \<in> set []. g c' < g c) \<and> (\<forall>c' \<in> set cs. g c' \<le> g c)"
        by simp
      then show ?thesis by blast
    next
      assume "\<exists>pre w post. cs = pre @ w # post
               \<and> pickLargest fuel pm cs (g c, Some c) = Some (g w, Some w)
               \<and> g c < g w
               \<and> (\<forall>c \<in> set pre. g c < g w) \<and> (\<forall>c \<in> set post. g c \<le> g w)"
      then obtain pre w post where w: "cs = pre @ w # post"
        "pickLargest fuel pm cs (g c, Some c) = Some (g w, Some w)" "g c < g w"
        "\<forall>c \<in> set pre. g c < g w" "\<forall>c \<in> set post. g c \<le> g w"
        by blast
      with step True have "c # cs = (c # pre) @ w # post
               \<and> pickLargest fuel pm (c # cs) (mx, r) = Some (g w, Some w)
               \<and> mx < g w
               \<and> (\<forall>c' \<in> set (c # pre). g c' < g w) \<and> (\<forall>c' \<in> set post. g c' \<le> g w)"
        by simp
      then show ?thesis by blast
    qed
  next
    case False
    then have step: "pickLargest fuel pm (c # cs) (mx, r) = pickLargest fuel pm cs (mx, r)"
      using c by simp
    from Cons.IH [OF rest, of mx r] show ?thesis
    proof
      assume "pickLargest fuel pm cs (mx, r) = Some (mx, r) \<and> (\<forall>c' \<in> set cs. g c' \<le> mx)"
      with step False show ?thesis by simp
    next
      assume "\<exists>pre w post. cs = pre @ w # post
               \<and> pickLargest fuel pm cs (mx, r) = Some (g w, Some w)
               \<and> mx < g w
               \<and> (\<forall>c \<in> set pre. g c < g w) \<and> (\<forall>c \<in> set post. g c \<le> g w)"
      then obtain pre w post where w: "cs = pre @ w # post"
        "pickLargest fuel pm cs (mx, r) = Some (g w, Some w)" "mx < g w"
        "\<forall>c \<in> set pre. g c < g w" "\<forall>c \<in> set post. g c \<le> g w"
        by blast
      with step False have "c # cs = (c # pre) @ w # post
               \<and> pickLargest fuel pm (c # cs) (mx, r) = Some (g w, Some w)
               \<and> mx < g w
               \<and> (\<forall>c' \<in> set (c # pre). g c' < g w) \<and> (\<forall>c' \<in> set post. g c' \<le> g w)"
        by simp
      then show ?thesis by blast
    qed
  qed
qed


lemma countNodes_positive: "countNodes fuel pm x = Some k \<Longrightarrow> 0 < k"
  by (cases fuel) (auto split: option.splits)

text \<open>
  Claim C1. Take a table with pairwise different ids, no \<open>rootId\<close> (absent, or the
  empty string), more than one potential root, and enough fuel for \<open>countNodes\<close> (the
  number of rows is enough). Then the tree is returned, and its root is the node of a
  potential root \<open>w\<close> such that every potential root listed before \<open>w\<close> has a strictly
  smaller descendant subtree and every potential root listed after \<open>w\<close> has a
  descendant subtree that is not larger: \<open>w\<close> is the first of the potential roots with
  the largest descendant subtree.
\<close>

theorem getFamilyTree_largest_fragment:
  assumes d: "distinct (ids ps)" and nr: "\<not> truthy rootId"
    and many: "1 < length (potentialRoots ps)" and f: "length ps \<le> fuel"
  shows "\<exists>t pre w post.
           getFamilyTree fuel rootId ps = Some (Inr t)
           \<and> potentialRoots ps = pre @ w # post
           \<and> map_of (treeNodes t) w = Some (root t) \<and> idP (row (root t)) = w
           \<and> (\<forall>c \<in> set pre. card (descendants (treeNodes t) c)
                               < card (descendants (treeNodes t) w))
           \<and> (\<forall>c \<in> set post. card (descendants (treeNodes t) c)
                               \<le> card (descendants (treeNodes t) w))"
proof -
  let ?pm = "buildNodes ps"
  let ?g = "\<lambda>c. card (descendants ?pm c)"
  from many obtain a b rest where roots: "potentialRoots ps = a # b # rest"
    by (cases "potentialRoots ps"; cases "tl (potentialRoots ps)") auto
  then have "ps \<noteq> []" by (auto simp: potentialRoots_def)
  from getFamilyTree_no_rootId [OF this nr]
  have tree: "getFamilyTree fuel rootId ps =
      (case pickLargest fuel ?pm (potentialRoots ps) (0, None) of
         None \<Rightarrow> None
       | Some (maxNodes, r) \<Rightarrow> Some (returnRoot ?pm r))"
    by (simp add: inferRoot_def roots)
  have counts: "\<forall>c \<in> set (potentialRoots ps). countNodes fuel ?pm c = Some (?g c)"
    using countNodes_potentialRoot [OF d _ f] by simp
  then have "countNodes fuel ?pm a = Some (?g a)" by (simp add: roots)
  then have "0 < ?g a" by (rule countNodes_positive)
  then have "\<not> (\<forall>c \<in> set (potentialRoots ps). ?g c \<le> 0)" by (auto simp: roots)
  with pickLargest_first_max [OF counts, of 0 None] obtain pre w post
    where w: "potentialRoots ps = pre @ w # post"
      and pick: "pickLargest fuel ?pm (potentialRoots ps) (0, None) = Some (?g w, Some w)"
      and before: "\<forall>c \<in> set pre. ?g c < ?g w" and after: "\<forall>c \<in> set post. ?g c \<le> ?g w"
    by blast
  from w have "w \<in> set (potentialRoots ps)" by simp
  from buildNodes_has [OF potentialRoot_id [OF this]] obtain n
    where n: "map_of ?pm w = Some n" by blast
  from buildNodes_node(1) [OF n] have id: "idP (row n) = w" by (simp add: personMap_Some)
  from tree pick n
  have "getFamilyTree fuel rootId ps = Some (Inr \<lparr>root = n, treeNodes = ?pm\<rparr>)"
    by (simp add: returnRoot_def)
  with w n id before after show ?thesis
    by (intro exI [of _ "\<lparr>root = n, treeNodes = ?pm\<rparr>"] exI [of _ pre] exI [of _ w]
        exI [of _ post]) simp
qed

text \<open>
  Two disjoint fragments: \<open>a\<close> with two children (three nodes) and \<open>b\<close> with two
  children and two grandchildren (five nodes). The root of the larger one is chosen.
\<close>

theorem getFamilyTree_largest_fragment_witness:
  "distinct (ids twoFragments)
   \<and> potentialRoots twoFragments = [''a'', ''b'']
   \<and> (\<exists>t. getFamilyTree 8 None twoFragments = Some (Inr t)
         \<and> idP (row (root t)) = ''b'' \<and> children (root t) = [''b1'', ''b2''])
   \<and> (\<exists>t pre post.
         getFamilyTree 8 None twoFragments = Some (Inr t)
         \<and> [''a'', ''b''] = pre @ idP (row (root t)) # post
         \<and> (\<forall>c \<in> set pre. card (descendants (treeNodes t) c)
                             < card (descendants (treeNodes t) (idP (row (root t)))))
         \<and> (\<forall>c \<in> set post. card (descendants (treeNodes t) c)
                             \<le> card (descendants (treeNodes t) (idP (row (root t))))))"
proof -
  have 1: "distinct (ids twoFragments)"
    by (simp add: twoFragments_def examplePerson_def ids_def)
  have 2: "potentialRoots twoFragments = [''a'', ''b'']"
    by (simp add: potentialRoots_def childIdsOf_def twoFragments_def examplePerson_def
        hasParent_def SPOUSE_def)
  have 3: "\<exists>t. getFamilyTree 8 None twoFragments = Some (Inr t)
         \<and> idP (row (root t)) = ''b'' \<and> children (root t) = [''b1'', ''b2'']"
    by (simp add: getFamilyTree_def 2 inferRoot_def)
       (simp add: twoFragments_def examplePerson_def buildNodes_def linkNode_def linkSpouse_def
          linkParent_def hasParent_def SPOUSE_def numeral_eq_Suc returnRoot_def)
  have 4: "\<not> truthy None" "1 < length (potentialRoots twoFragments)"
    "length twoFragments \<le> 8"
    by (simp_all add: 2) (simp add: twoFragments_def)
  from getFamilyTree_largest_fragment [OF 1 4] obtain t pre w post
    where "getFamilyTree 8 None twoFragments = Some (Inr t)"
      "potentialRoots twoFragments = pre @ w # post" "idP (row (root t)) = w"
      "\<forall>c \<in> set pre. card (descendants (treeNodes t) c) < card (descendants (treeNodes t) w)"
      "\<forall>c \<in> set post. card (descendants (treeNodes t) c) \<le> card (descendants (treeNodes t) w)"
    by blast
  then have "\<exists>t pre post.
         getFamilyTree 8 None twoFragments = Some (Inr t)
         \<and> [''a'', ''b''] = pre @ idP (row (root t)) # post
         \<and> (\<forall>c \<in> set pre. card (descendants (treeNodes t) c)
                             < card (descendants (treeNodes t) (idP (row (root t)))))
         \<and> (\<forall>c \<in> set post. card (descendants (treeNodes t) c)
                             \<le> card (descendants (treeNodes t) (idP (row (root t)))))"
    unfolding 2 by blast
  with 1 2 3 show ?thesis by blast
qed

section \<open>Shortest paths\<close>

text \<open>
  A walk in the adjacency lists: a non-empty sequence of ids in which every id is in
  the neighbour list of the one before it.
\<close>

fun isWalk :: "adjacency \<Rightarrow> pid list \<Rightarrow> bool" where
  "isWalk adj [] = False"
| "isWalk adj [x] = True"
| "isWalk adj (x # y # rest) = (y \<in> set (neighbors adj x) \<and> isWalk adj (y # rest))"

lemma isWalk_snoc:
  "p \<noteq> [] \<Longrightarrow> isWalk adj (p @ [n]) = (isWalk adj p \<and> n \<in> set (neighbors adj (last p)))"
  by (induction adj p rule: isWalk.induct) auto

lemma isWalk_split:
  "isWalk adj (pre @ x # y # post) \<Longrightarrow> isWalk adj (pre @ [x]) \<and> y \<in> set (neighbors adj x)"
proof (induction pre)
  case Nil
  then show ?case by simp
next
  case (Cons a pre)
  then show ?case by (cases pre) auto
qed

lemma walk_leaves:
  "isWalk adj w \<Longrightarrow> hd w \<in> V \<Longrightarrow> last w \<notin> V \<Longrightarrow>
     \<exists>pre x y post. w = pre @ x # y # post \<and> x \<in> V \<and> y \<notin> V"
proof (induction adj w rule: isWalk.induct)
  case (1 adj)
  then show ?case by simp
next
  case (2 adj x)
  then show ?case by simp
next
  case (3 adj x y rest)
  show ?case
  proof (cases "y \<in> V")
    case False
    with "3.prems"(2) have "x # y # rest = [] @ x # y # rest \<and> x \<in> V \<and> y \<notin> V" by simp
    then show ?thesis by blast
  next
    case True
    with "3.prems" "3.IH" obtain pre x' y' post
      where "y # rest = pre @ x' # y' # post" "x' \<in> V" "y' \<notin> V"
      by auto
    then have "x # y # rest = (x # pre) @ x' # y' # post \<and> x' \<in> V \<and> y' \<notin> V" by simp
    then show ?thesis by blast
  qed
qed

text \<open>The nodes that the loop over the neighbours newly visits, in order.\<close>

fun fresh :: "pid set \<Rightarrow> pid list \<Rightarrow> pid list" where
  "fresh V [] = []"
| "fresh V (n # ns) = (if n \<in> V then fresh V ns else n # fresh (insert n V) ns)"

lemma set_fresh: "set (fresh V ns) = set ns - V"
  by (induction ns arbitrary: V) auto

lemma fold_visit:
  "fold (visit p) ns (V, q) = (V \<union> set ns, q @ map (\<lambda>n. p @ [n]) (fresh V ns))"
  by (induction ns arbitrary: V q) auto

text \<open>
  What holds of the queue \<open>q\<close> and the visited set \<open>V\<close> whenever the loop is entered,
  for the start \<open>s\<close> and the target \<open>e\<close>.
\<close>

definition shortestTo :: "adjacency \<Rightarrow> pid \<Rightarrow> pid list \<Rightarrow> bool" where
  "shortestTo adj s p =
     (isWalk adj p \<and> hd p = s
      \<and> (\<forall>w. isWalk adj w \<and> hd w = s \<and> last w = last p \<longrightarrow> length p \<le> length w))"

definition bfsInv :: "adjacency \<Rightarrow> pid \<Rightarrow> pid \<Rightarrow> pid list list \<Rightarrow> pid set \<Rightarrow> bool" where
  "bfsInv adj s e q V =
     (s \<in> V
      \<and> (\<forall>p \<in> set q. shortestTo adj s p \<and> last p \<in> V)
      \<and> sorted (map length q)
      \<and> (\<forall>p \<in> set q. \<forall>p' \<in> set q. length p' \<le> length p + 1)
      \<and> (\<forall>v \<in> V. v \<in> last ` set q \<or> (v \<noteq> e \<and> set (neighbors adj v) \<subseteq> V)))"

lemma unvisited_is_far:
  assumes inv: "bfsInv adj s e q V"
    and w: "isWalk adj w" "hd w = s" "last w \<notin> V"
  shows "\<exists>p \<in> set q. length p < length w"
proof -
  from inv have sV: "s \<in> V" by (simp add: bfsInv_def)
  from w(2) sV have "hd w \<in> V" by simp
  from walk_leaves [OF w(1) this w(3)] obtain pre x y post
    where dec: "w = pre @ x # y # post" and x: "x \<in> V" and y: "y \<notin> V"
    by blast
  from isWalk_split [of adj pre x y post] w(1) dec
  have wx: "isWalk adj (pre @ [x])" and yx: "y \<in> set (neighbors adj x)" by simp_all
  from y yx have "\<not> set (neighbors adj x) \<subseteq> V" by blast
  with inv x obtain p where p: "p \<in> set q" "last p = x"
    unfolding bfsInv_def by (metis (no_types, lifting) image_iff)
  with inv have "shortestTo adj s p" by (simp add: bfsInv_def)
  moreover from dec w(2) have "hd (pre @ [x]) = s" by (cases pre) simp_all
  ultimately have "length p \<le> length (pre @ [x])"
    using wx p(2) unfolding shortestTo_def by (metis last_snoc)
  with dec have "length p < length w" by simp
  with p(1) show ?thesis by blast
qed

lemma bfsInv_step:
  assumes inv: "bfsInv adj s e (p # q) V" and ne: "last p \<noteq> e"
  shows "bfsInv adj s e (q @ map (\<lambda>n. p @ [n]) (fresh V (neighbors adj (last p))))
           (V \<union> set (neighbors adj (last p)))"
proof -
  let ?ns = "neighbors adj (last p)"
  let ?new = "map (\<lambda>n. p @ [n]) (fresh V ?ns)"
  let ?V' = "V \<union> set ?ns"
  let ?L = "length p"
  from inv have sV: "s \<in> V"
    and pOK: "shortestTo adj s p" "last p \<in> V"
    and qOK: "\<forall>p' \<in> set q. shortestTo adj s p' \<and> last p' \<in> V"
    and sorted: "sorted (map length q)" "\<forall>p' \<in> set q. ?L \<le> length p'"
    and close: "\<forall>p' \<in> set q. length p' \<le> ?L + 1"
    and vis: "\<forall>v \<in> V. v \<in> last ` set (p # q) \<or> (v \<noteq> e \<and> set (neighbors adj v) \<subseteq> V)"
    by (simp_all add: bfsInv_def)
  from pOK(1) have pw: "isWalk adj p" "hd p = s" by (simp_all add: shortestTo_def)
  then have pne: "p \<noteq> []" by auto
  have newOK: "shortestTo adj s (p @ [n]) \<and> last (p @ [n]) \<in> ?V'"
    if n: "n \<in> set (fresh V ?ns)" for n
  proof -
    from n have nn: "n \<in> set ?ns" "n \<notin> V" by (simp_all add: set_fresh)
    have "?L < length w" if w: "isWalk adj w" "hd w = s" "last w = n" for w
    proof -
      from unvisited_is_far [OF inv w(1,2)] w(3) nn(2) obtain p'
        where "p' \<in> set (p # q)" "length p' < length w" by auto
      with sorted(2) show ?thesis by auto
    qed
    then have "\<forall>w. isWalk adj w \<and> hd w = s \<and> last w = last (p @ [n])
                 \<longrightarrow> length (p @ [n]) \<le> length w"
      by (simp add: Suc_leI)
    with pw pne nn(1) show ?thesis
      by (simp add: shortestTo_def isWalk_snoc)
  qed
  have lens: "\<forall>p' \<in> set (q @ ?new). ?L \<le> length p' \<and> length p' \<le> ?L + 1"
    using sorted(2) close by auto
  have 1: "s \<in> ?V'" using sV by simp
  have 2: "\<forall>p' \<in> set (q @ ?new). shortestTo adj s p' \<and> last p' \<in> ?V'"
  proof
    fix p'
    assume "p' \<in> set (q @ ?new)"
    then consider "p' \<in> set q" | n where "n \<in> set (fresh V ?ns)" "p' = p @ [n]"
      by auto
    then show "shortestTo adj s p' \<and> last p' \<in> ?V'"
    proof cases
      case 1
      with qOK show ?thesis by simp
    next
      case 2
      with newOK [OF 2(1)] show ?thesis by simp
    qed
  qed
  have 3: "sorted (map length (q @ ?new))"
    using sorted(1) close by (simp add: sorted_append comp_def sorted_replicate map_replicate_const)
  have 4: "\<forall>a \<in> set (q @ ?new). \<forall>b \<in> set (q @ ?new). length b \<le> length a + 1"
  proof (intro ballI)
    fix a b
    assume "a \<in> set (q @ ?new)" "b \<in> set (q @ ?new)"
    with lens have "?L \<le> length a" "length b \<le> ?L + 1" by blast+
    then show "length b \<le> length a + 1" by simp
  qed
  have 5: "v \<in> last ` set (q @ ?new) \<or> (v \<noteq> e \<and> set (neighbors adj v) \<subseteq> ?V')"
    if v: "v \<in> ?V'" for v
  proof (cases "v \<in> V")
    case True
    with vis have "v = last p \<or> v \<in> last ` set q \<or> (v \<noteq> e \<and> set (neighbors adj v) \<subseteq> V)"
      by auto
    then show ?thesis
    proof (elim disjE)
      assume "v = last p"
      with ne show ?thesis by simp
    next
      assume "v \<in> last ` set q"
      then show ?thesis by auto
    next
      assume "v \<noteq> e \<and> set (neighbors adj v) \<subseteq> V"
      then show ?thesis by auto
    qed
  next
    case False
    with v have "v \<in> set (fresh V ?ns)" by (simp add: set_fresh)
    then have "p @ [v] \<in> set (q @ ?new)" by simp
    then have "last (p @ [v]) \<in> last ` set (q @ ?new)" by (rule imageI)
    then show ?thesis by simp
  qed
  from 1 2 3 4 5 show ?thesis unfolding bfsInv_def by blast
qed

lemma bfsInv_initial: "bfsInv adj s e [[s]] {s}"
proof -
  have "length [s] \<le> length w" if "isWalk adj w" for w
    using that by (cases w) simp_all
  then have "shortestTo adj s [s]" by (simp add: shortestTo_def)
  then show ?thesis by (simp add: bfsInv_def)
qed

lemma bfs_shortest:
  "bfsInv adj s e q V \<Longrightarrow>
     (case bfs adj e q V of
        Some p \<Rightarrow> shortestTo adj s p \<and> last p = e
      | None \<Rightarrow> (\<forall>w. isWalk adj w \<and> hd w = s \<longrightarrow> last w \<noteq> e))"
proof (induction adj e q V rule: bfs.induct)
  case (1 adj e V)
  have "last w \<noteq> e" if w: "isWalk adj w" "hd w = s" for w
  proof (cases "last w \<in> V")
    case True
    with "1.prems" show ?thesis by (auto simp: bfsInv_def)
  next
    case False
    from unvisited_is_far [OF "1.prems" w False] show ?thesis by simp
  qed
  then show ?case by simp
next
  case (2 adj e p q V)
  from "2.prems" have pOK: "shortestTo adj s p" by (simp add: bfsInv_def)
  then have "p \<noteq> []" by (auto simp: shortestTo_def)
  then have l: "lastId p = Some (last p)" by (simp add: lastId_def)
  show ?case
  proof (cases "last p = e")
    case True
    with l pOK show ?thesis by simp
  next
    case False
    let ?V' = "V \<union> set (neighbors adj (last p))"
    let ?q' = "q @ map (\<lambda>n. p @ [n]) (fresh V (neighbors adj (last p)))"
    have f: "fold (visit p) (neighbors adj (last p)) (V, q) = (?V', ?q')"
      by (rule fold_visit)
    from bfsInv_step [OF "2.prems" False] have "bfsInv adj s e ?q' ?V'" .
    from "2.IH"(2) [OF l False f [symmetric] this] l False f show ?thesis by simp
  qed
qed


section \<open>The relationship graph\<close>

text \<open>
  The undirected graph of the records: two records are linked when one names the other
  as its parent (the sentinel is no parent) or as its spouse.
\<close>

definition namesAsParent :: "person \<Rightarrow> person \<Rightarrow> bool" where
  "namesAsParent p q = (parentId p = Some (idP q) \<and> parentId p \<noteq> Some SPOUSE)"

definition namesAsSpouse :: "person \<Rightarrow> person \<Rightarrow> bool" where
  "namesAsSpouse p q = (spouseId p = Some (idP q))"

definition linked :: "store \<Rightarrow> pid \<Rightarrow> pid \<Rightarrow> bool" where
  "linked ps u v =
     (\<exists>p \<in> set ps. \<exists>q \<in> set ps. idP p = u \<and> idP q = v
        \<and> (namesAsParent p q \<or> namesAsParent q p \<or> namesAsSpouse p q \<or> namesAsSpouse q p))"

fun linkWalk :: "store \<Rightarrow> pid list \<Rightarrow> bool" where
  "linkWalk ps [] = False"
| "linkWalk ps [x] = True"
| "linkWalk ps (x # y # rest) = (linked ps x y \<and> linkWalk ps (y # rest))"

text \<open>Every link of the table names a record of the table.\<close>

definition linksResolve :: "store \<Rightarrow> bool" where
  "linksResolve ps =
     (\<forall>p \<in> set ps.
        (\<forall>i. parentId p = Some i \<and> hasParent (Some i) \<longrightarrow> i \<in> set (ids ps))
        \<and> (\<forall>i. spouseId p = Some i \<and> truthy (Some i) \<longrightarrow> i \<in> set (ids ps)))"

lemma in_edgesOf:
  "v \<in> set (edgesOf p u) \<longleftrightarrow>
     (\<exists>i. parentId p = Some i \<and> hasParent (Some i) \<and> (u = idP p \<and> v = i \<or> u = i \<and> v = idP p))
     \<or> (\<exists>i. spouseId p = Some i \<and> truthy (Some i) \<and> (u = idP p \<and> v = i \<or> u = i \<and> v = idP p))"
  by (cases "parentId p"; cases "spouseId p") (auto simp: edgesOf_def)

lemma in_neighbors:
  "v \<in> set (neighbors (buildAdjacency ps) u) \<longleftrightarrow> (\<exists>p \<in> set ps. v \<in> set (edgesOf p u))"
  by (simp add: neighbors_buildAdjacency)

lemma linked_neighbors:
  assumes ne: "[] \<notin> set (ids ps)" and l: "linked ps u v"
  shows "v \<in> set (neighbors (buildAdjacency ps) u)"
proof -
  from l obtain p q where p: "p \<in> set ps" "idP p = u" and q: "q \<in> set ps" "idP q = v"
    and k: "namesAsParent p q \<or> namesAsParent q p \<or> namesAsSpouse p q \<or> namesAsSpouse q p"
    unfolding linked_def by blast
  from p q have "u \<in> set (ids ps)" "v \<in> set (ids ps)" by (auto simp: ids_def)
  with ne have t: "u \<noteq> []" "v \<noteq> []" by metis+
  from k show ?thesis
  proof (elim disjE)
    assume "namesAsParent p q"
    with p q t have "v \<in> set (edgesOf p u)"
      by (auto simp: in_edgesOf namesAsParent_def hasParent_def)
    with p(1) show ?thesis by (auto simp: in_neighbors)
  next
    assume "namesAsParent q p"
    with p q t have "v \<in> set (edgesOf q u)"
      by (auto simp: in_edgesOf namesAsParent_def hasParent_def)
    with q(1) show ?thesis by (auto simp: in_neighbors)
  next
    assume "namesAsSpouse p q"
    with p q t have "v \<in> set (edgesOf p u)"
      by (auto simp: in_edgesOf namesAsSpouse_def)
    with p(1) show ?thesis by (auto simp: in_neighbors)
  next
    assume "namesAsSpouse q p"
    with p q t have "v \<in> set (edgesOf q u)"
      by (auto simp: in_edgesOf namesAsSpouse_def)
    with q(1) show ?thesis by (auto simp: in_neighbors)
  qed
qed

lemma id_has_record: "i \<in> set (ids ps) \<Longrightarrow> \<exists>q \<in> set ps. idP q = i"
  by (auto simp: ids_def)

lemma neighbors_linked:
  assumes r: "linksResolve ps" and n: "v \<in> set (neighbors (buildAdjacency ps) u)"
  shows "linked ps u v"
proof -
  from n obtain p where p: "p \<in> set ps" and e: "v \<in> set (edgesOf p u)"
    by (auto simp: in_neighbors)
  from p have pid: "idP p \<in> set (ids ps)" by (simp add: ids_def)
  from e consider
      i where "parentId p = Some i" "hasParent (Some i)" "u = idP p \<and> v = i \<or> u = i \<and> v = idP p"
    | i where "spouseId p = Some i" "truthy (Some i)" "u = idP p \<and> v = i \<or> u = i \<and> v = idP p"
    unfolding in_edgesOf by blast
  then show ?thesis
  proof cases
    case 1
    with r p have "i \<in> set (ids ps)" unfolding linksResolve_def by blast
    then obtain q where q: "q \<in> set ps" "idP q = i" using id_has_record by blast
    with 1 have "namesAsParent p q" by (simp add: namesAsParent_def hasParent_def)
    with 1(3) p q show ?thesis unfolding linked_def by blast
  next
    case 2
    with r p have "i \<in> set (ids ps)" unfolding linksResolve_def by blast
    then obtain q where q: "q \<in> set ps" "idP q = i" using id_has_record by blast
    with 2 have "namesAsSpouse p q" by (simp add: namesAsSpouse_def)
    with 2(3) p q show ?thesis unfolding linked_def by blast
  qed
qed

lemma isWalk_linkWalk:
  assumes "linksResolve ps" and "[] \<notin> set (ids ps)"
  shows "isWalk (buildAdjacency ps) w = linkWalk ps w"
proof (induction w rule: induct_list012)
  case (3 x y rest)
  have "y \<in> set (neighbors (buildAdjacency ps) x) \<longleftrightarrow> linked ps x y"
    using neighbors_linked [OF assms(1)] linked_neighbors [OF assms(2)] by blast
  with 3 show ?case by simp
qed simp_all

lemma linked_ids: "linked ps u v \<Longrightarrow> v \<in> set (ids ps)"
  by (auto simp: linked_def ids_def)

lemma linkWalk_ids:
  "linkWalk ps w \<Longrightarrow> hd w \<in> set (ids ps) \<Longrightarrow> set w \<subseteq> set (ids ps)"
  by (induction ps w rule: linkWalk.induct) (auto dest: linked_ids)

lemma detailedPath_returns:
  "\<forall>x \<in> set path. pm x \<noteq> None \<Longrightarrow> (\<forall>i. prev = Some i \<longrightarrow> pm i \<noteq> None)
     \<Longrightarrow> \<exists>segs. detailedPath pm prev path = Inr segs"
proof (induction path arbitrary: prev)
  case Nil
  then show ?case by simp
next
  case (Cons c rest)
  from Cons.prems(1) obtain cp where cp: "pm c = Some cp" by auto
  from Cons.prems(1) cp have "\<exists>segs. detailedPath pm (Some c) rest = Inr segs"
    by (intro Cons.IH) auto
  then obtain segs where "detailedPath pm (Some c) rest = Inr segs" by blast
  with cp Cons.prems(2) show ?case by (cases prev) auto
qed

text \<open>
  On a table whose links all resolve and whose ids are not empty, for a start that has a
  record: \<open>findRelationshipPath\<close> does not throw; a path it returns runs from \<open>startId\<close>
  to \<open>endId\<close> along links and no such path has fewer nodes; and it returns \<^verbatim>\<open>null\<close>
  only when there is no such path.
\<close>

lemma findRelationshipPath_shortest:
  assumes r: "linksResolve ps" and ne: "[] \<notin> set (ids ps)" and s: "startId \<in> set (ids ps)"
  shows "(\<exists>segs. findRelationshipPath startId endId ps = Inr (Some segs)
            \<and> linkWalk ps (map personId segs)
            \<and> hd (map personId segs) = startId \<and> last (map personId segs) = endId
            \<and> (\<forall>w. linkWalk ps w \<and> hd w = startId \<and> last w = endId
                   \<longrightarrow> length segs \<le> length w))
         \<or> (findRelationshipPath startId endId ps = Inr None
            \<and> (\<forall>w. linkWalk ps w \<and> hd w = startId \<longrightarrow> last w \<noteq> endId))"
proof (cases "bfs (buildAdjacency ps) endId [[startId]] {startId}")
  case None
  with bfs_shortest [OF bfsInv_initial, of "buildAdjacency ps" startId endId]
  have "\<forall>w. isWalk (buildAdjacency ps) w \<and> hd w = startId \<longrightarrow> last w \<noteq> endId" by simp
  then have "\<forall>w. linkWalk ps w \<and> hd w = startId \<longrightarrow> last w \<noteq> endId"
    by (simp add: isWalk_linkWalk [OF r ne])
  moreover from None have "findRelationshipPath startId endId ps = Inr None"
    by (simp add: findRelationshipPath_def)
  ultimately show ?thesis by simp
next
  case (Some path)
  with bfs_shortest [OF bfsInv_initial, of "buildAdjacency ps" startId endId]
  have sh: "shortestTo (buildAdjacency ps) startId path" and l: "last path = endId" by simp_all
  then have w: "linkWalk ps path" and h: "hd path = startId"
    and m: "\<forall>w. linkWalk ps w \<and> hd w = startId \<and> last w = endId \<longrightarrow> length path \<le> length w"
    by (simp_all add: shortestTo_def isWalk_linkWalk [OF r ne])
  from linkWalk_ids [OF w] h s have "set path \<subseteq> set (ids ps)" by simp
  then have "\<forall>x \<in> set path. personMap ps x \<noteq> None" by (auto simp: personMap_None)
  from detailedPath_returns [OF this, of None] obtain segs
    where d: "detailedPath (personMap ps) None path = Inr segs" by auto
  from detailedPath_ids [OF d] have p: "map personId segs = path" .
  then have "length segs = length path" by (metis length_map)
  with Some d p w h l m
  have "findRelationshipPath startId endId ps = Inr (Some segs)
            \<and> linkWalk ps (map personId segs)
            \<and> hd (map personId segs) = startId \<and> last (map personId segs) = endId
            \<and> (\<forall>w. linkWalk ps w \<and> hd w = startId \<and> last w = endId
                   \<longrightarrow> length segs \<le> length w)"
    by (simp add: findRelationshipPath_def)
  then show ?thesis by blast
qed

end
